theory Spec2Isabelle
  imports Main "HOL-Library.Word"
begin

section \<open>Deferred results of the configuration client\<close>

text \<open>
  The theory embeds \<^verbatim>\<open>async_result.go\<close> (the deferred result \<^verbatim>\<open>asyncResult\<close>) and
  the manual polling policy that chains a transform onto a fetch. Objects live in a
  store indexed by references, since closures registered on one \<^verbatim>\<open>asyncResult\<close>
  complete another one. A callback supplied by a caller acts on a state \<open>'w\<close> of its own
  (the configuration store, for the policy); the two closures that \<^verbatim>\<open>async_result.go\<close>
  itself builds are constructors of a datatype, so that the store holds no function over
  the store.
\<close>

subsection \<open>Values, panics, channels\<close>

type_synonym ref = nat

text \<open>Run-time panics of Go that the modelled code can raise.\<close>

datatype panic = NilDereference | CloseOfClosedChannel | TypeAssertion

text \<open>
  A \<^verbatim>\<open>chan struct{}\<close> on which nothing is ever sent: a receive blocks while the channel
  is open and returns at once when it is closed.
\<close>

datatype chan = Open | Closed

text \<open>An \<^verbatim>\<open>interface{}\<close> value: \<open>None\<close> is the nil interface.\<close>

type_synonym 'v iface = "'v option"

text \<open>
  \<open>completion\<close> is a \<^verbatim>\<open>func(result interface{})\<close>: either a function of the caller,
  which reads the payload and acts on the caller's state, or the closure of
  \<^verbatim>\<open>applyThen\<close> (lines 63-66), which holds the transform and the new \<^verbatim>\<open>asyncResult\<close>.
  \<open>thunk\<close> is a \<^verbatim>\<open>func()\<close>: the closure of \<^verbatim>\<open>accept\<close> (lines 49-51), which holds the
  \<^verbatim>\<open>asyncResult\<close> whose payload it reads and the completion it calls.
\<close>

datatype ('v, 'w) completion =
    Consumer "'v iface \<Rightarrow> 'w \<Rightarrow> panic + 'w"
  | ApplyThen_closure "'v iface \<Rightarrow> 'w \<Rightarrow> panic + ('v iface \<times> 'w)" ref

datatype ('v, 'w) thunk = Accept_closure ref "('v, 'w) completion"

subsection \<open>The two structs\<close>

text \<open>
  Modelled from the spec: the constants \<^verbatim>\<open>pending\<close> and \<^verbatim>\<open>completed\<close> are declared in
  \<^verbatim>\<open>async.go\<close>, which is not among the sources. The spec names the two states of the
  completion signal; the proofs use only that the two values differ.
\<close>

definition pending :: "32 word" where
  "pending = 0"

definition completed :: "32 word" where
  "completed = 1"

text \<open>
  Modelled from the spec: the struct \<^verbatim>\<open>async\<close> (the completion signal) is declared in
  \<^verbatim>\<open>async.go\<close>, which is not among the sources. By the spec it has a state, an ordered
  sequence of zero-argument continuations and a signal that waiters observe.
\<close>

record ('v, 'w) async =
  a_state :: "32 word"
  a_completions :: "('v, 'w) thunk list"
  a_done :: chan

text \<open>
  The struct \<^verbatim>\<open>asyncResult\<close> (lines 21-28). A slice is \<open>None\<close> when it is nil. The
  embedded \<^verbatim>\<open>*async\<close> is created by \<^verbatim>\<open>newAsyncResult\<close> and never shared, so it is a field
  by value. The field \<^verbatim>\<open>done\<close> is \<open>done_ch\<close> here. The embedded mutex is only ever
  read-locked, in \<^verbatim>\<open>complete\<close>, so it never blocks; it has no field.
\<close>

record ('v, 'w) asyncResult =
  state :: "32 word"
  completions :: "('v, 'w) completion list option"
  done_ch :: chan
  result :: "'v iface"
  async :: "('v, 'w) async"

text \<open>The program state: the allocated \<^verbatim>\<open>asyncResult\<close> objects and the callers' state.\<close>

record ('v, 'w) st =
  heap :: "('v, 'w) asyncResult list"
  world :: 'w

text \<open>An assignment to fields of the object at \<open>r\<close>.\<close>

definition upd :: "ref \<Rightarrow> (('v, 'w) asyncResult \<Rightarrow> ('v, 'w) asyncResult) \<Rightarrow> ('v, 'w) st \<Rightarrow> ('v, 'w) st" where
  "upd r g s = s\<lparr>heap := (heap s)[r := g (heap s ! r)]\<rparr>"

text \<open>\<^verbatim>\<open>close(asyncResult.done)\<close>: closing a closed channel panics.\<close>

definition close_done :: "ref \<Rightarrow> ('v, 'w) st \<Rightarrow> panic + ('v, 'w) st" where
  "close_done r s =
     (if done_ch (heap s ! r) = Closed then Inl CloseOfClosedChannel
      else Inr (upd r (\<lambda>a. a\<lparr>done_ch := Closed\<rparr>) s))"

text \<open>The elements that \<^verbatim>\<open>range\<close> visits: none for a nil slice.\<close>

definition elems :: "'a list option \<Rightarrow> 'a list" where
  "elems xs = (case xs of None \<Rightarrow> [] | Some ys \<Rightarrow> ys)"

subsection \<open>Completion\<close>

text \<open>
  \<open>complete\<close> is \<^verbatim>\<open>asyncResult.complete\<close> (lines 72-84): the compare-and-swap on the
  state, the assignment of the payload, the completion of the embedded signal, the close
  of \<^verbatim>\<open>done\<close>, the loop over \<^verbatim>\<open>completions\<close>, and the assignment of nil to \<^verbatim>\<open>completions\<close>,
  which stands after the \<^verbatim>\<open>if\<close> and so runs in every call. A call on a nil receiver
  panics at its first access.

  \<open>run_thunk\<close> is the body of the closure of \<^verbatim>\<open>accept\<close>, \<^verbatim>\<open>completion(asyncResult.result)\<close>:
  it reads the payload when it runs. \<open>invoke\<close> calls a completion: a caller's function,
  or the closure of \<^verbatim>\<open>applyThen\<close>,
  \<^verbatim>\<open>newResult := completion(result); newAsyncResult.complete(newResult)\<close>.
  \<open>run_thunks\<close> and \<open>run_completions\<close> are the two \<^verbatim>\<open>range\<close> loops. A panic of a callback
  unwinds through every caller: the run ends with \<open>Inl\<close>.
\<close>

text \<open>
  Modelled from the spec: \<^verbatim>\<open>async.complete\<close>, which \<^verbatim>\<open>complete\<close> calls at line 75, is in
  \<^verbatim>\<open>async.go\<close>, which is not among the sources. \<open>async_complete r\<close> is that call on the
  signal embedded in \<open>r\<close>. By the spec the call that moves the signal from pending to
  completed signals the waiters, invokes every registered continuation in registration
  order and then clears the list; any other call does nothing.
\<close>

function (sequential)
  complete :: "ref \<Rightarrow> 'v iface \<Rightarrow> ('v, 'w) st \<Rightarrow> panic + ('v, 'w) st"
and async_complete :: "ref \<Rightarrow> ('v, 'w) st \<Rightarrow> panic + ('v, 'w) st"
and run_thunks :: "('v, 'w) thunk list \<Rightarrow> ('v, 'w) st \<Rightarrow> panic + ('v, 'w) st"
and run_thunk :: "('v, 'w) thunk \<Rightarrow> ('v, 'w) st \<Rightarrow> panic + ('v, 'w) st"
and invoke :: "('v, 'w) completion \<Rightarrow> 'v iface \<Rightarrow> ('v, 'w) st \<Rightarrow> panic + ('v, 'w) st"
and run_completions :: "('v, 'w) completion list \<Rightarrow> 'v iface \<Rightarrow> ('v, 'w) st \<Rightarrow> panic + ('v, 'w) st"
where
  "complete r v s =
     (if r < length (heap s) then
        if state (heap s ! r) = pending then
          (case async_complete r
                  (upd r (\<lambda>a. a\<lparr>result := v\<rparr>) (upd r (\<lambda>a. a\<lparr>state := completed\<rparr>) s)) of
             Inl p \<Rightarrow> Inl p
           | Inr s3 \<Rightarrow>
              (case close_done r s3 of
                 Inl p \<Rightarrow> Inl p
               | Inr s4 \<Rightarrow>
                  (case run_completions (elems (completions (heap s4 ! r))) v s4 of
                     Inl p \<Rightarrow> Inl p
                   | Inr s5 \<Rightarrow> Inr (upd r (\<lambda>a. a\<lparr>completions := None\<rparr>) s5))))
        else Inr (upd r (\<lambda>a. a\<lparr>completions := None\<rparr>) s)
      else Inl NilDereference)"
| "async_complete r s =
     (if a_state (async (heap s ! r)) = pending then
        (case run_thunks (a_completions (async (heap s ! r)))
                (upd r (\<lambda>a. a\<lparr>async := (async a)\<lparr>a_done := Closed\<rparr>\<rparr>)
                  (upd r (\<lambda>a. a\<lparr>async := (async a)\<lparr>a_state := completed\<rparr>\<rparr>) s)) of
           Inl p \<Rightarrow> Inl p
         | Inr s' \<Rightarrow> Inr (upd r (\<lambda>a. a\<lparr>async := (async a)\<lparr>a_completions := []\<rparr>\<rparr>) s'))
      else Inr s)"
| "run_thunks [] s = Inr s"
| "run_thunks (t # ts) s =
     (case run_thunk t s of Inl p \<Rightarrow> Inl p | Inr s' \<Rightarrow> run_thunks ts s')"
| "run_thunk (Accept_closure r c) s =
     (if r < length (heap s) then invoke c (result (heap s ! r)) s else Inl NilDereference)"
| "invoke (Consumer k) v s =
     (case k v (world s) of Inl p \<Rightarrow> Inl p | Inr w \<Rightarrow> Inr (s\<lparr>world := w\<rparr>))"
| "invoke (ApplyThen_closure f n) v s =
     (case f v (world s) of
        Inl p \<Rightarrow> Inl p
      | Inr (nv, w) \<Rightarrow> complete n nv (s\<lparr>world := w\<rparr>))"
| "run_completions [] v s = Inr s"
| "run_completions (c # cs) v s =
     (case invoke c v s of Inl p \<Rightarrow> Inl p | Inr s' \<Rightarrow> run_completions cs v s')"
  by pat_completeness auto

text \<open>
  Termination: every call of \<open>complete\<close> that goes on to run callbacks has moved one
  \<^verbatim>\<open>asyncResult\<close> out of the pending state, and nothing moves one back. The number of
  pending objects bounds the nesting; below it the order of the calls and the length of
  the list being run decrease.
\<close>

definition npending :: "('v, 'w) st \<Rightarrow> nat" where
  "npending s = length (filter (\<lambda>a. state a = pending) (heap s))"

fun call_state :: "(((ref \<times> 'v iface \<times> ('v, 'w) st) + (ref \<times> ('v, 'w) st) + (('v, 'w) thunk list \<times> ('v, 'w) st))
      + ((('v, 'w) thunk \<times> ('v, 'w) st) + (('v, 'w) completion \<times> 'v iface \<times> ('v, 'w) st)
          + (('v, 'w) completion list \<times> 'v iface \<times> ('v, 'w) st))) \<Rightarrow> ('v, 'w) st" where
  "call_state (Inl (Inl (r, v, s))) = s"
| "call_state (Inl (Inr (Inl (r, s)))) = s"
| "call_state (Inl (Inr (Inr (ts, s)))) = s"
| "call_state (Inr (Inl (t, s))) = s"
| "call_state (Inr (Inr (Inl (c, v, s)))) = s"
| "call_state (Inr (Inr (Inr (cs, v, s)))) = s"

fun call_rank :: "(((ref \<times> 'v iface \<times> ('v, 'w) st) + (ref \<times> ('v, 'w) st) + (('v, 'w) thunk list \<times> ('v, 'w) st))
      + ((('v, 'w) thunk \<times> ('v, 'w) st) + (('v, 'w) completion \<times> 'v iface \<times> ('v, 'w) st)
          + (('v, 'w) completion list \<times> 'v iface \<times> ('v, 'w) st))) \<Rightarrow> nat" where
  "call_rank (Inl (Inl (r, v, s))) = 0"
| "call_rank (Inl (Inr (Inl (r, s)))) = 4"
| "call_rank (Inl (Inr (Inr (ts, s)))) = 3"
| "call_rank (Inr (Inl (t, s))) = 2"
| "call_rank (Inr (Inr (Inl (c, v, s)))) = 1"
| "call_rank (Inr (Inr (Inr (cs, v, s)))) = 3"

fun call_len :: "(((ref \<times> 'v iface \<times> ('v, 'w) st) + (ref \<times> ('v, 'w) st) + (('v, 'w) thunk list \<times> ('v, 'w) st))
      + ((('v, 'w) thunk \<times> ('v, 'w) st) + (('v, 'w) completion \<times> 'v iface \<times> ('v, 'w) st)
          + (('v, 'w) completion list \<times> 'v iface \<times> ('v, 'w) st))) \<Rightarrow> nat" where
  "call_len (Inl (Inr (Inr (ts, s)))) = length ts"
| "call_len (Inr (Inr (Inr (cs, v, s)))) = length cs"
| "call_len _ = 0"

lemma filter_update_same:
  "P y = P (xs ! r) \<Longrightarrow> length (filter P (xs[r := y])) = length (filter P xs)"
proof (induction xs arbitrary: r)
  case Nil
  then show ?case by simp
next
  case (Cons x xs)
  then show ?case by (cases r) auto
qed

lemma filter_update_less:
  "r < length xs \<Longrightarrow> P (xs ! r) \<Longrightarrow> \<not> P y \<Longrightarrow>
   length (filter P (xs[r := y])) < length (filter P xs)"
proof (induction xs arbitrary: r)
  case Nil
  then show ?case by simp
next
  case (Cons x xs)
  then show ?case by (cases r) auto
qed

lemma pending_neq_completed [simp]: "pending \<noteq> completed" "completed \<noteq> pending"
  by (simp_all add: pending_def completed_def)

lemma npending_upd_same:
  "state (g (heap s ! r)) = state (heap s ! r) \<Longrightarrow> npending (upd r g s) = npending s"
  by (simp add: npending_def upd_def filter_update_same)

lemma npending_upd_less:
  "r < length (heap s) \<Longrightarrow> state (heap s ! r) = pending \<Longrightarrow> state (g (heap s ! r)) \<noteq> pending \<Longrightarrow>
   npending (upd r g s) < npending s"
  by (simp add: npending_def upd_def filter_update_less)

lemma npending_world [simp]: "npending (s\<lparr>world := w\<rparr>) = npending s"
  by (simp add: npending_def)

lemma close_done_npending: "close_done r s = Inr s' \<Longrightarrow> npending s' = npending s"
  by (auto simp: close_done_def npending_upd_same split: if_splits)

lemma npending_mono_dom:
  "complete_async_complete_run_thunks_run_thunk_invoke_run_completions_dom (Inl (Inl (r, v, s))) \<Longrightarrow>
     (\<forall>s'. complete r v s = Inr s' \<longrightarrow> npending s' \<le> npending s)"
  "complete_async_complete_run_thunks_run_thunk_invoke_run_completions_dom (Inl (Inr (Inl (r, s)))) \<Longrightarrow>
     (\<forall>s'. async_complete r s = Inr s' \<longrightarrow> npending s' \<le> npending s)"
  "complete_async_complete_run_thunks_run_thunk_invoke_run_completions_dom (Inl (Inr (Inr (ts, s)))) \<Longrightarrow>
     (\<forall>s'. run_thunks ts s = Inr s' \<longrightarrow> npending s' \<le> npending s)"
  "complete_async_complete_run_thunks_run_thunk_invoke_run_completions_dom (Inr (Inl (t, s))) \<Longrightarrow>
     (\<forall>s'. run_thunk t s = Inr s' \<longrightarrow> npending s' \<le> npending s)"
  "complete_async_complete_run_thunks_run_thunk_invoke_run_completions_dom (Inr (Inr (Inl (c, v, s)))) \<Longrightarrow>
     (\<forall>s'. invoke c v s = Inr s' \<longrightarrow> npending s' \<le> npending s)"
  "complete_async_complete_run_thunks_run_thunk_invoke_run_completions_dom (Inr (Inr (Inr (cs, v, s)))) \<Longrightarrow>
     (\<forall>s'. run_completions cs v s = Inr s' \<longrightarrow> npending s' \<le> npending s)"
proof (induction rule: complete_async_complete_run_thunks_run_thunk_invoke_run_completions.pinduct)
  case (1 r v s)
  show ?case
  proof (intro allI impI)
    fix s' assume eq: "complete r v s = Inr s'"
    show "npending s' \<le> npending s"
    proof (cases "r < length (heap s) \<and> state (heap s ! r) = pending")
      case False
      with eq show ?thesis
        by (auto simp: complete.psimps[OF 1(1)] npending_upd_same split: if_splits)
    next
      case True
      let ?s1 = "upd r (\<lambda>a. a\<lparr>state := completed\<rparr>) s"
      let ?s2 = "upd r (\<lambda>a. a\<lparr>result := v\<rparr>) ?s1"
      have lt: "npending ?s2 < npending s"
        using True by (simp add: npending_upd_same npending_upd_less)
      from eq True obtain s3 s4 s5 where
        a: "async_complete r ?s2 = Inr s3" and c: "close_done r s3 = Inr s4"
        and rc: "run_completions (elems (completions (heap s4 ! r))) v s4 = Inr s5"
        and s': "s' = upd r (\<lambda>a. a\<lparr>completions := None\<rparr>) s5"
        by (auto simp: complete.psimps[OF 1(1)] split: sum.splits)
      have "npending s3 \<le> npending ?s2" using 1(2) True a by simp
      moreover have "npending s4 = npending s3" using c by (rule close_done_npending)
      moreover have "npending s5 \<le> npending s4" using 1(3)[OF _ _ a c] True rc by simp
      moreover have "npending s' = npending s5" by (simp add: s' npending_upd_same)
      ultimately show ?thesis using lt by simp
    qed
  qed
next
  case (2 r s)
  then show ?case
    by (auto simp: async_complete.psimps npending_upd_same split: if_splits sum.splits)
next
  case (3 s)
  then show ?case by (simp add: run_thunks.psimps)
next
  case (4 t ts s)
  then show ?case by (auto simp: run_thunks.psimps split: sum.splits)
next
  case (5 r c s)
  then show ?case by (auto simp: run_thunk.psimps split: if_splits)
next
  case (6 k v s)
  then show ?case by (auto simp: invoke.psimps split: sum.splits)
next
  case (7 f n v s)
  then show ?case by (auto simp: invoke.psimps split: sum.splits)
next
  case (8 v s)
  then show ?case by (simp add: run_completions.psimps)
next
  case (9 c cs v s)
  then show ?case by (auto simp: run_completions.psimps split: sum.splits)
qed

termination complete
proof (relation "measures [\<lambda>x. npending (call_state x), call_rank, call_len]", goal_cases)
  case 1
  then show ?case by simp
next
  case (2 r v s)
  then show ?case by (simp add: npending_upd_same npending_upd_less)
next
  case (3 r v s s3 s4)
  have "npending s3 \<le> npending (upd r (\<lambda>a. a\<lparr>result := v\<rparr>) (upd r (\<lambda>a. a\<lparr>state := completed\<rparr>) s))"
    using npending_mono_dom(2)[OF 3(5)] 3(3) by simp
  moreover have "npending s4 = npending s3" using 3(4) by (rule close_done_npending)
  moreover have "npending (upd r (\<lambda>a. a\<lparr>result := v\<rparr>) (upd r (\<lambda>a. a\<lparr>state := completed\<rparr>) s)) < npending s"
    using 3(1,2) by (simp add: npending_upd_same npending_upd_less)
  ultimately show ?case by simp
next
  case (4 r s)
  then show ?case by (simp add: npending_upd_same)
next
  case (5 t ts s)
  then show ?case by simp
next
  case (6 t ts s s')
  then show ?case using npending_mono_dom(4)[OF 6(2)] by auto
next
  case (7 r c s)
  then show ?case by simp
next
  case (8 f n v s b nv w)
  then show ?case by simp
next
  case (9 c cs v s)
  then show ?case by simp
next
  case (10 c cs v s s')
  then show ?case using npending_mono_dom(5)[OF 10(2)] by auto
qed

declare complete.simps [simp del]
declare async_complete.simps [simp del]

subsection \<open>Construction, registration, chaining, reading\<close>

text \<open>
  Modelled from the spec: \<^verbatim>\<open>newAsync\<close> is in \<^verbatim>\<open>async.go\<close>, which is not among the
  sources. By the spec a completion signal is created pending, with no continuation.
\<close>

definition newAsync :: "('v, 'w) async" where
  "newAsync = \<lparr>a_state = pending, a_completions = [], a_done = Open\<rparr>"

text \<open>
  \<^verbatim>\<open>newAsyncResult\<close> (lines 31-33) allocates: the new reference is the next index of the
  store. The slice literal is empty and not nil; the payload is the zero value, nil.
\<close>

definition newAsyncResult :: "('v, 'w) st \<Rightarrow> ref \<times> ('v, 'w) st" where
  "newAsyncResult s =
     (length (heap s),
      s\<lparr>heap := heap s @ [\<lparr>state = pending, completions = Some [], done_ch = Open,
                             result = None, async = newAsync\<rparr>]\<rparr>)"

text \<open>\<^verbatim>\<open>asCompletedAsyncResult\<close> (lines 36-40).\<close>

definition asCompletedAsyncResult :: "'v iface \<Rightarrow> ('v, 'w) st \<Rightarrow> panic + (ref \<times> ('v, 'w) st)" where
  "asCompletedAsyncResult res s =
     (case newAsyncResult s of
        (a, s1) \<Rightarrow> (case complete a res s1 of Inl p \<Rightarrow> Inl p | Inr s2 \<Rightarrow> Inr (a, s2)))"

text \<open>
  Modelled from the spec: \<^verbatim>\<open>async.accept\<close> is in \<^verbatim>\<open>async.go\<close>, which is not among the
  sources. By the spec, registering a continuation on a completed signal invokes it at
  once, on the calling thread, instead of storing it; otherwise it is appended. The
  handle that the call returns is not used by \<^verbatim>\<open>async_result.go\<close> and is left out.
\<close>

definition async_accept :: "ref \<Rightarrow> ('v, 'w) thunk \<Rightarrow> ('v, 'w) st \<Rightarrow> panic + ('v, 'w) st" where
  "async_accept r t s =
     (if a_state (async (heap s ! r)) = completed then run_thunk t s
      else Inr (upd r (\<lambda>a. a\<lparr>async := (async a)\<lparr>a_completions := a_completions (async a) @ [t]\<rparr>\<rparr>) s))"

text \<open>
  \<^verbatim>\<open>asyncResult.accept\<close> (lines 48-52) registers the closure that reads the payload when
  it runs. \<^verbatim>\<open>applyThen\<close> (lines 61-68) allocates the new \<^verbatim>\<open>asyncResult\<close>, registers its
  closure on the receiver and returns the new reference. A receiver that is nil when the
  call starts is nil after the allocation too: it is checked against the objects that
  were allocated before, and the call on it panics.
\<close>

definition accept :: "ref \<Rightarrow> ('v, 'w) completion \<Rightarrow> ('v, 'w) st \<Rightarrow> panic + ('v, 'w) st" where
  "accept r c s =
     (if r < length (heap s) then async_accept r (Accept_closure r c) s else Inl NilDereference)"

definition applyThen :: "ref \<Rightarrow> ('v iface \<Rightarrow> 'w \<Rightarrow> panic + ('v iface \<times> 'w)) \<Rightarrow> ('v, 'w) st
    \<Rightarrow> panic + (ref \<times> ('v, 'w) st)" where
  "applyThen r f s =
     (case newAsyncResult s of
        (n, s1) \<Rightarrow>
          if r < length (heap s) then
            (case accept r (ApplyThen_closure f n) s1 of Inl p \<Rightarrow> Inl p | Inr s2 \<Rightarrow> Inr (n, s2))
          else Inl NilDereference)"

text \<open>
  \<^verbatim>\<open>get\<close> (lines 88-91) receives from \<^verbatim>\<open>done\<close> and then reads the payload. In a
  given state the receive either returns, the channel being closed, or blocks: \<open>Blocked\<close>
  says that the call does not return in this state.
\<close>

datatype 'a recv = Blocked | Received 'a

definition get :: "ref \<Rightarrow> ('v, 'w) st \<Rightarrow> panic + 'v iface recv" where
  "get r s =
     (if r < length (heap s) then
        (case done_ch (heap s ! r) of
           Open \<Rightarrow> Inr Blocked
         | Closed \<Rightarrow> Inr (Received (result (heap s ! r))))
      else Inl NilDereference)"

subsection \<open>Basic facts about a run\<close>

lemma heap_upd [simp]: "heap (upd r g s) = (heap s)[r := g (heap s ! r)]"
  by (simp add: upd_def)

lemma world_upd [simp]: "world (upd r g s) = world s"
  by (simp add: upd_def)

lemma upd_world_commute: "upd r g (s\<lparr>world := w\<rparr>) = (upd r g s)\<lparr>world := w\<rparr>"
  by (simp add: upd_def)

lemma close_done_length: "close_done r s = Inr s' \<Longrightarrow> length (heap s') = length (heap s)"
  by (auto simp: close_done_def split: if_splits)

lemmas complete_induct = complete_async_complete_run_thunks_run_thunk_invoke_run_completions.induct


lemma complete_nil: "\<not> r < length (heap s) \<Longrightarrow> complete r v s = Inl NilDereference"
  by (simp add: complete.simps[of r v s])

lemma complete_loser:
  "r < length (heap s) \<Longrightarrow> state (heap s ! r) \<noteq> pending \<Longrightarrow>
   complete r v s = Inr (upd r (\<lambda>a. a\<lparr>completions := None\<rparr>) s)"
  by (simp add: complete.simps[of r v s])

lemma complete_winner:
  "r < length (heap s) \<Longrightarrow> state (heap s ! r) = pending \<Longrightarrow>
   complete r v s =
     (case async_complete r
              (upd r (\<lambda>a. a\<lparr>result := v\<rparr>) (upd r (\<lambda>a. a\<lparr>state := completed\<rparr>) s)) of
        Inl p \<Rightarrow> Inl p
      | Inr s3 \<Rightarrow>
         (case close_done r s3 of
            Inl p \<Rightarrow> Inl p
          | Inr s4 \<Rightarrow>
             (case run_completions (elems (completions (heap s4 ! r))) v s4 of
                Inl p \<Rightarrow> Inl p
              | Inr s5 \<Rightarrow> Inr (upd r (\<lambda>a. a\<lparr>completions := None\<rparr>) s5))))"
  by (simp add: complete.simps[of r v s])

lemma complete_winnerE:
  assumes "r < length (heap s)" "state (heap s ! r) = pending" "complete r v s = Inr s'"
  obtains s3 s4 s5 where
    "async_complete r (upd r (\<lambda>a. a\<lparr>result := v\<rparr>) (upd r (\<lambda>a. a\<lparr>state := completed\<rparr>) s)) = Inr s3"
    "close_done r s3 = Inr s4"
    "run_completions (elems (completions (heap s4 ! r))) v s4 = Inr s5"
    "s' = upd r (\<lambda>a. a\<lparr>completions := None\<rparr>) s5"
proof -
  from assms(3) have "\<exists>s3 s4 s5.
    async_complete r (upd r (\<lambda>a. a\<lparr>result := v\<rparr>) (upd r (\<lambda>a. a\<lparr>state := completed\<rparr>) s)) = Inr s3 \<and>
    close_done r s3 = Inr s4 \<and>
    run_completions (elems (completions (heap s4 ! r))) v s4 = Inr s5 \<and>
    s' = upd r (\<lambda>a. a\<lparr>completions := None\<rparr>) s5"
    unfolding complete_winner[OF assms(1,2)] by (simp split: sum.splits)
  then show ?thesis using that by blast
qed

lemma async_complete_again:
  "a_state (async (heap s ! r)) \<noteq> pending \<Longrightarrow> async_complete r s = Inr s"
  by (simp add: async_complete.simps[of r s])

lemma async_complete_first:
  "a_state (async (heap s ! r)) = pending \<Longrightarrow>
   async_complete r s =
     (case run_thunks (a_completions (async (heap s ! r)))
             (upd r (\<lambda>a. a\<lparr>async := (async a)\<lparr>a_done := Closed\<rparr>\<rparr>)
               (upd r (\<lambda>a. a\<lparr>async := (async a)\<lparr>a_state := completed\<rparr>\<rparr>) s)) of
        Inl p \<Rightarrow> Inl p
      | Inr s' \<Rightarrow> Inr (upd r (\<lambda>a. a\<lparr>async := (async a)\<lparr>a_completions := []\<rparr>\<rparr>) s'))"
  by (simp add: async_complete.simps[of r s])

lemma async_complete_firstE:
  assumes "a_state (async (heap s ! r)) = pending" "async_complete r s = Inr s'"
  obtains s1 where
    "run_thunks (a_completions (async (heap s ! r)))
             (upd r (\<lambda>a. a\<lparr>async := (async a)\<lparr>a_done := Closed\<rparr>\<rparr>)
               (upd r (\<lambda>a. a\<lparr>async := (async a)\<lparr>a_state := completed\<rparr>\<rparr>) s)) = Inr s1"
    "s' = upd r (\<lambda>a. a\<lparr>async := (async a)\<lparr>a_completions := []\<rparr>\<rparr>) s1"
proof -
  from assms(2) have "\<exists>s1.
    run_thunks (a_completions (async (heap s ! r)))
             (upd r (\<lambda>a. a\<lparr>async := (async a)\<lparr>a_done := Closed\<rparr>\<rparr>)
               (upd r (\<lambda>a. a\<lparr>async := (async a)\<lparr>a_state := completed\<rparr>\<rparr>) s)) = Inr s1 \<and>
    s' = upd r (\<lambda>a. a\<lparr>async := (async a)\<lparr>a_completions := []\<rparr>\<rparr>) s1"
    unfolding async_complete_first[OF assms(1)] by (simp split: sum.splits)
  then show ?thesis using that by blast
qed


text \<open>The store never shrinks or grows during a completion.\<close>

lemma run_thunks_ConsE:
  assumes "run_thunks (t # ts) s = Inr s'"
  obtains s1 where "run_thunk t s = Inr s1" "run_thunks ts s1 = Inr s'"
  using assms by (cases "run_thunk t s") simp_all

lemma run_completions_ConsE:
  assumes "run_completions (c # cs) v s = Inr s'"
  obtains s1 where "invoke c v s = Inr s1" "run_completions cs v s1 = Inr s'"
  using assms by (cases "invoke c v s") simp_all

lemma run_thunkE:
  assumes "run_thunk (Accept_closure r c) s = Inr s'"
  obtains "r < length (heap s)" "invoke c (result (heap s ! r)) s = Inr s'"
  using assms by (cases "r < length (heap s)") simp_all

lemma invoke_ConsumerE:
  assumes "invoke (Consumer k) v s = Inr s'"
  obtains w where "k v (world s) = Inr w" "s' = s\<lparr>world := w\<rparr>"
  using assms by (cases "k v (world s)") auto

lemma invoke_ApplyThenE:
  assumes "invoke (ApplyThen_closure f n) v s = Inr s'"
  obtains nv w where "f v (world s) = Inr (nv, w)" "complete n nv (s\<lparr>world := w\<rparr>) = Inr s'"
  using assms by (cases "f v (world s)") auto

lemma heap_length:
  "\<forall>s'. complete r v s = Inr s' \<longrightarrow> length (heap s') = length (heap s)"
  "\<forall>s'. async_complete r s = Inr s' \<longrightarrow> length (heap s') = length (heap s)"
  "\<forall>s'. run_thunks ts s = Inr s' \<longrightarrow> length (heap s') = length (heap s)"
  "\<forall>s'. run_thunk t s = Inr s' \<longrightarrow> length (heap s') = length (heap s)"
  "\<forall>s'. invoke c v s = Inr s' \<longrightarrow> length (heap s') = length (heap s)"
  "\<forall>s'. run_completions cs v s = Inr s' \<longrightarrow> length (heap s') = length (heap s)"
proof (induction r v s and r s and ts s and t s and c v s and cs v s rule: complete_induct)
  case (1 r v s)
  show ?case
  proof (intro allI impI)
    fix s' assume eq: "complete r v s = Inr s'"
    show "length (heap s') = length (heap s)"
    proof (cases "r < length (heap s) \<and> state (heap s ! r) = pending")
      case False
      with eq show ?thesis
        by (cases "r < length (heap s)") (auto simp: complete_nil complete_loser)
    next
      case True
      then have r: "r < length (heap s)" and p: "state (heap s ! r) = pending" by auto
      from complete_winnerE[OF r p eq] obtain s3 s4 s5 where
        a: "async_complete r (upd r (\<lambda>a. a\<lparr>result := v\<rparr>) (upd r (\<lambda>a. a\<lparr>state := completed\<rparr>) s)) = Inr s3"
        and c: "close_done r s3 = Inr s4"
        and rc: "run_completions (elems (completions (heap s4 ! r))) v s4 = Inr s5"
        and s': "s' = upd r (\<lambda>a. a\<lparr>completions := None\<rparr>) s5" by blast
      have "length (heap s3) = length (heap s)" using 1(1)[OF r p] a by simp
      moreover have "length (heap s4) = length (heap s3)" using c by (rule close_done_length)
      moreover have "length (heap s5) = length (heap s4)" using 1(2)[OF r p a c] rc by simp
      ultimately show ?thesis by (simp add: s')
    qed
  qed
next
  case (2 r s)
  show ?case
  proof (intro allI impI)
    fix s' assume eq: "async_complete r s = Inr s'"
    show "length (heap s') = length (heap s)"
    proof (cases "a_state (async (heap s ! r)) = pending")
      case True
      from async_complete_firstE[OF True eq] obtain s1 where
        rt: "run_thunks (a_completions (async (heap s ! r)))
             (upd r (\<lambda>a. a\<lparr>async := (async a)\<lparr>a_done := Closed\<rparr>\<rparr>)
               (upd r (\<lambda>a. a\<lparr>async := (async a)\<lparr>a_state := completed\<rparr>\<rparr>) s)) = Inr s1"
        and s': "s' = upd r (\<lambda>a. a\<lparr>async := (async a)\<lparr>a_completions := []\<rparr>\<rparr>) s1" by blast
      have "length (heap s1) = length (heap s)" using 2[OF True] rt by simp
      then show ?thesis by (simp add: s')
    next
      case False
      with eq show ?thesis by (simp add: async_complete_again)
    qed
  qed
next
  case (3 s)
  then show ?case by simp
next
  case (4 t ts s)
  show ?case
  proof (intro allI impI)
    fix s' assume "run_thunks (t # ts) s = Inr s'"
    then obtain s1 where a: "run_thunk t s = Inr s1" and b: "run_thunks ts s1 = Inr s'"
      by (rule run_thunks_ConsE)
    from 4(1) a 4(2)[OF a] b show "length (heap s') = length (heap s)" by simp
  qed
next
  case (5 r c s)
  show ?case
  proof (intro allI impI)
    fix s' assume "run_thunk (Accept_closure r c) s = Inr s'"
    then have r: "r < length (heap s)" and i: "invoke c (result (heap s ! r)) s = Inr s'"
      by (simp_all split: if_splits)
    from 5[OF r] i show "length (heap s') = length (heap s)" by simp
  qed
next
  case (6 k v s)
  show ?case by (auto split: sum.splits)
next
  case (7 f n v s)
  show ?case
  proof (intro allI impI)
    fix s' assume "invoke (ApplyThen_closure f n) v s = Inr s'"
    then obtain nv w where f: "f v (world s) = Inr (nv, w)"
      and c: "complete n nv (s\<lparr>world := w\<rparr>) = Inr s'" by (rule invoke_ApplyThenE)
    from 7[OF f refl] c show "length (heap s') = length (heap s)" by simp
  qed
next
  case (8 v s)
  then show ?case by simp
next
  case (9 c cs v s)
  show ?case
  proof (intro allI impI)
    fix s' assume "run_completions (c # cs) v s = Inr s'"
    then obtain s1 where a: "invoke c v s = Inr s1" and b: "run_completions cs v s1 = Inr s'"
      by (rule run_completions_ConsE)
    from 9(1) a 9(2)[OF a] b show "length (heap s') = length (heap s)" by simp
  qed
qed


text \<open>
  An \<^verbatim>\<open>asyncResult\<close> that is no longer pending keeps its state, payload and channel
  through any completion; its \<^verbatim>\<open>completions\<close> stay or become nil; its embedded signal
  is touched only by \<open>async_complete\<close> on that very object.
\<close>

definition cell_kept :: "bool \<Rightarrow> ('v, 'w) asyncResult \<Rightarrow> ('v, 'w) asyncResult \<Rightarrow> bool" where
  "cell_kept inner a b \<longleftrightarrow>
     state b = state a \<and> result b = result a \<and> done_ch b = done_ch a \<and>
     (completions b = completions a \<or> completions b = None) \<and>
     (inner \<longrightarrow> async b = async a)"

lemma cell_kept_refl [simp]: "cell_kept i a a"
  by (simp add: cell_kept_def)

lemma cell_kept_trans: "cell_kept i a b \<Longrightarrow> cell_kept i b c \<Longrightarrow> cell_kept i a c"
  by (auto simp: cell_kept_def)

lemma cell_kept_weaken: "cell_kept True a b \<Longrightarrow> cell_kept i a b"
  by (simp add: cell_kept_def)

lemma close_done_nth: "close_done r s = Inr s' \<Longrightarrow> q \<noteq> r \<Longrightarrow> heap s' ! q = heap s ! q"
  by (auto simp: close_done_def split: if_splits)

lemma frame:
  "\<forall>s' q. complete r v s = Inr s' \<longrightarrow> q < length (heap s) \<longrightarrow> state (heap s ! q) \<noteq> pending \<longrightarrow>
     cell_kept True (heap s ! q) (heap s' ! q)"
  "\<forall>s' q. async_complete r s = Inr s' \<longrightarrow> q < length (heap s) \<longrightarrow> state (heap s ! q) \<noteq> pending \<longrightarrow>
     cell_kept (q \<noteq> r) (heap s ! q) (heap s' ! q)"
  "\<forall>s' q. run_thunks ts s = Inr s' \<longrightarrow> q < length (heap s) \<longrightarrow> state (heap s ! q) \<noteq> pending \<longrightarrow>
     cell_kept True (heap s ! q) (heap s' ! q)"
  "\<forall>s' q. run_thunk t s = Inr s' \<longrightarrow> q < length (heap s) \<longrightarrow> state (heap s ! q) \<noteq> pending \<longrightarrow>
     cell_kept True (heap s ! q) (heap s' ! q)"
  "\<forall>s' q. invoke c v s = Inr s' \<longrightarrow> q < length (heap s) \<longrightarrow> state (heap s ! q) \<noteq> pending \<longrightarrow>
     cell_kept True (heap s ! q) (heap s' ! q)"
  "\<forall>s' q. run_completions cs v s = Inr s' \<longrightarrow> q < length (heap s) \<longrightarrow> state (heap s ! q) \<noteq> pending \<longrightarrow>
     cell_kept True (heap s ! q) (heap s' ! q)"
proof (induction r v s and r s and ts s and t s and c v s and cs v s rule: complete_induct)
  case (1 r v s)
  show ?case
  proof (intro allI impI)
    fix s' q assume eq: "complete r v s = Inr s'" and q: "q < length (heap s)"
      and np: "state (heap s ! q) \<noteq> pending"
    show "cell_kept True (heap s ! q) (heap s' ! q)"
    proof (cases "state (heap s ! r) = pending")
      case False
      then have "s' = upd r (\<lambda>a. a\<lparr>completions := None\<rparr>) s"
        using eq by (cases "r < length (heap s)") (auto simp: complete_nil complete_loser)
      then show ?thesis using q
        by (cases "q = r") (simp_all add: cell_kept_def)
    next
      case True
      have r: "r < length (heap s)"
        using eq by (cases "r < length (heap s)") (auto simp: complete_nil)
      from True np have qr: "q \<noteq> r" by auto
      let ?s2 = "upd r (\<lambda>a. a\<lparr>result := v\<rparr>) (upd r (\<lambda>a. a\<lparr>state := completed\<rparr>) s)"
      from complete_winnerE[OF r True eq] obtain s3 s4 s5 where
        a: "async_complete r ?s2 = Inr s3"
        and c: "close_done r s3 = Inr s4"
        and rc: "run_completions (elems (completions (heap s4 ! r))) v s4 = Inr s5"
        and s': "s' = upd r (\<lambda>a. a\<lparr>completions := None\<rparr>) s5" by blast
      have e2: "heap ?s2 ! q = heap s ! q" using qr by simp
      have l3: "length (heap s3) = length (heap s)" using heap_length(2) a by fastforce
      have q2: "q < length (heap ?s2)" using q by simp
      have np2: "state (heap ?s2 ! q) \<noteq> pending" using e2 np by simp
      have k3: "cell_kept True (heap s ! q) (heap s3 ! q)"
        using 1(1)[OF r True, rule_format, OF a q2 np2] qr e2 by simp
      have e4: "heap s4 ! q = heap s3 ! q" using c qr by (rule close_done_nth)
      have l4: "length (heap s4) = length (heap s)" using close_done_length[OF c] l3 by simp
      have np4: "state (heap s4 ! q) \<noteq> pending" using k3 e4 np by (simp add: cell_kept_def)
      have q4: "q < length (heap s4)" using q l4 by simp
      have k5: "cell_kept True (heap s4 ! q) (heap s5 ! q)"
        by (rule 1(2)[OF r True a c, rule_format, OF rc q4 np4])
      have e': "heap s' ! q = heap s5 ! q" using qr by (simp add: s')
      from k5 have "cell_kept True (heap s3 ! q) (heap s' ! q)" by (simp only: e4 e')
      with k3 show ?thesis by (rule cell_kept_trans)
    qed
  qed
next
  case (2 r s)
  show ?case
  proof (intro allI impI)
    fix s' q assume eq: "async_complete r s = Inr s'" and q: "q < length (heap s)"
      and np: "state (heap s ! q) \<noteq> pending"
    show "cell_kept (q \<noteq> r) (heap s ! q) (heap s' ! q)"
    proof (cases "a_state (async (heap s ! r)) = pending")
      case False
      with eq show ?thesis by (simp add: async_complete_again)
    next
      case True
      let ?s0 = "upd r (\<lambda>a. a\<lparr>async := (async a)\<lparr>a_done := Closed\<rparr>\<rparr>)
               (upd r (\<lambda>a. a\<lparr>async := (async a)\<lparr>a_state := completed\<rparr>\<rparr>) s)"
      from async_complete_firstE[OF True eq] obtain s1 where
        rt: "run_thunks (a_completions (async (heap s ! r))) ?s0 = Inr s1"
        and s': "s' = upd r (\<lambda>a. a\<lparr>async := (async a)\<lparr>a_completions := []\<rparr>\<rparr>) s1" by blast
      have k0: "cell_kept (q \<noteq> r) (heap s ! q) (heap ?s0 ! q)"
        using q by (cases "q = r") (simp_all add: cell_kept_def)
      have l0: "length (heap ?s0) = length (heap s)" by simp
      have np0: "state (heap ?s0 ! q) \<noteq> pending" using k0 np by (simp add: cell_kept_def)
      have q0: "q < length (heap ?s0)" using q by simp
      have k1: "cell_kept True (heap ?s0 ! q) (heap s1 ! q)"
        by (rule 2[OF True, rule_format, OF rt q0 np0])
      have l1: "length (heap s1) = length (heap s)" using heap_length(3) rt l0 by fastforce
      have k': "cell_kept (q \<noteq> r) (heap s1 ! q) (heap s' ! q)"
        using q l1 by (cases "q = r") (simp_all add: cell_kept_def s')
      show ?thesis
        by (rule cell_kept_trans[OF cell_kept_trans[OF k0 cell_kept_weaken[OF k1]] k'])
    qed
  qed
next
  case (3 s)
  then show ?case by simp
next
  case (4 t ts s)
  show ?case
  proof (intro allI impI)
    fix s' q assume eq: "run_thunks (t # ts) s = Inr s'" and q: "q < length (heap s)"
      and np: "state (heap s ! q) \<noteq> pending"
    from eq obtain s1 where a: "run_thunk t s = Inr s1" and b: "run_thunks ts s1 = Inr s'"
      by (rule run_thunks_ConsE)
    have k1: "cell_kept True (heap s ! q) (heap s1 ! q)"
      by (rule 4(1)[rule_format, OF a q np])
    have l1: "length (heap s1) = length (heap s)" using heap_length(4) a by fastforce
    have np1: "state (heap s1 ! q) \<noteq> pending" using k1 np by (simp add: cell_kept_def)
    have q1: "q < length (heap s1)" using q l1 by simp
    have "cell_kept True (heap s1 ! q) (heap s' ! q)"
      by (rule 4(2)[OF a, rule_format, OF b q1 np1])
    with k1 show "cell_kept True (heap s ! q) (heap s' ! q)" by (rule cell_kept_trans)
  qed
next
  case (5 r c s)
  show ?case
  proof (intro allI impI)
    fix s' q assume eq: "run_thunk (Accept_closure r c) s = Inr s'" and q: "q < length (heap s)"
      and np: "state (heap s ! q) \<noteq> pending"
    from eq have r: "r < length (heap s)" and i: "invoke c (result (heap s ! r)) s = Inr s'"
      by (simp_all split: if_splits)
    show "cell_kept True (heap s ! q) (heap s' ! q)"
      by (rule 5[OF r, rule_format, OF i q np])
  qed
next
  case (6 k v s)
  show ?case by (auto split: sum.splits)
next
  case (7 f n v s)
  show ?case
  proof (intro allI impI)
    fix s' q assume eq: "invoke (ApplyThen_closure f n) v s = Inr s'" and q: "q < length (heap s)"
      and np: "state (heap s ! q) \<noteq> pending"
    from eq obtain nv w where f: "f v (world s) = Inr (nv, w)"
      and c: "complete n nv (s\<lparr>world := w\<rparr>) = Inr s'" by (rule invoke_ApplyThenE)
    have "cell_kept True (heap (s\<lparr>world := w\<rparr>) ! q) (heap s' ! q)"
      using q np by (intro 7[OF f refl, rule_format, OF c]) simp_all
    then show "cell_kept True (heap s ! q) (heap s' ! q)" by simp
  qed
next
  case (8 v s)
  then show ?case by simp
next
  case (9 c cs v s)
  show ?case
  proof (intro allI impI)
    fix s' q assume eq: "run_completions (c # cs) v s = Inr s'" and q: "q < length (heap s)"
      and np: "state (heap s ! q) \<noteq> pending"
    from eq obtain s1 where a: "invoke c v s = Inr s1" and b: "run_completions cs v s1 = Inr s'"
      by (rule run_completions_ConsE)
    have k1: "cell_kept True (heap s ! q) (heap s1 ! q)"
      by (rule 9(1)[rule_format, OF a q np])
    have l1: "length (heap s1) = length (heap s)" using heap_length(5) a by fastforce
    have np1: "state (heap s1 ! q) \<noteq> pending" using k1 np by (simp add: cell_kept_def)
    have q1: "q < length (heap s1)" using q l1 by simp
    have "cell_kept True (heap s1 ! q) (heap s' ! q)"
      by (rule 9(2)[OF a, rule_format, OF b q1 np1])
    with k1 show "cell_kept True (heap s ! q) (heap s' ! q)" by (rule cell_kept_trans)
  qed
qed

subsection \<open>What a completion leaves behind\<close>

text \<open>
  \<open>fresh\<close> is the object that \<^verbatim>\<open>newAsyncResult\<close> allocates; \<open>completed_cell x\<close> is the
  object that a completion with \<open>x\<close> leaves: every field of it is determined.
\<close>

definition fresh :: "('v, 'w) asyncResult" where
  "fresh = \<lparr>state = pending, completions = Some [], done_ch = Open, result = None, async = newAsync\<rparr>"

definition completed_cell :: "'v iface \<Rightarrow> ('v, 'w) asyncResult" where
  "completed_cell x =
     \<lparr>state = completed, completions = None, done_ch = Closed, result = x,
      async = \<lparr>a_state = completed, a_completions = [], a_done = Closed\<rparr>\<rparr>"

lemma newAsyncResult_eq: "newAsyncResult s = (length (heap s), s\<lparr>heap := heap s @ [fresh]\<rparr>)"
  by (simp add: newAsyncResult_def fresh_def)

lemma upd_same: "g (heap s ! r) = heap s ! r \<Longrightarrow> upd r g s = s"
  by (simp add: upd_def)

lemma upd_upd: "upd r g (upd r h s) = upd r (\<lambda>a. g (h a)) s"
  by (cases "r < length (heap s)") (simp_all add: upd_def list_update_beyond)

lemma complete_outer_post:
  assumes r: "r < length (heap s)" and p: "state (heap s ! r) = pending"
    and eq: "complete r v s = Inr s'"
  shows "r < length (heap s') \<and> state (heap s' ! r) = completed \<and> result (heap s' ! r) = v \<and>
         done_ch (heap s' ! r) = Closed \<and> completions (heap s' ! r) = None"
proof -
  let ?s2 = "upd r (\<lambda>a. a\<lparr>result := v\<rparr>) (upd r (\<lambda>a. a\<lparr>state := completed\<rparr>) s)"
  from complete_winnerE[OF r p eq] obtain s3 s4 s5 where
    a: "async_complete r ?s2 = Inr s3"
    and c: "close_done r s3 = Inr s4"
    and rc: "run_completions (elems (completions (heap s4 ! r))) v s4 = Inr s5"
    and s': "s' = upd r (\<lambda>a. a\<lparr>completions := None\<rparr>) s5" by blast
  have r2: "r < length (heap ?s2)" using r by simp
  have c2: "state (heap ?s2 ! r) = completed" "result (heap ?s2 ! r) = v" using r by simp_all
  then have np2: "state (heap ?s2 ! r) \<noteq> pending" by simp
  have k3: "cell_kept (r \<noteq> r) (heap ?s2 ! r) (heap s3 ! r)"
    by (rule frame(2)[rule_format, OF a r2 np2])
  have l3: "length (heap s3) = length (heap s)" using heap_length(2)[rule_format, OF a] by simp
  have c3: "state (heap s3 ! r) = completed" "result (heap s3 ! r) = v"
    using k3 c2 by (simp_all add: cell_kept_def)
  have l4: "length (heap s4) = length (heap s)" using close_done_length[OF c] l3 by simp
  have c4: "state (heap s4 ! r) = completed" "result (heap s4 ! r) = v" "done_ch (heap s4 ! r) = Closed"
    using c c3 l3 r by (auto simp: close_done_def split: if_splits)
  have r4: "r < length (heap s4)" using l4 r by simp
  have np4: "state (heap s4 ! r) \<noteq> pending" using c4 by simp
  have k5: "cell_kept True (heap s4 ! r) (heap s5 ! r)"
    by (rule frame(6)[rule_format, OF rc r4 np4])
  have l5: "length (heap s5) = length (heap s)"
    using heap_length(6)[rule_format, OF rc] l4 by simp
  show ?thesis using k5 c4 l5 r by (simp add: s' cell_kept_def)
qed

lemma complete_idem:
  assumes "complete r v1 s = Inr s1"
  shows "complete r v2 s1 = Inr s1"
proof -
  have r: "r < length (heap s)"
    using assms by (cases "r < length (heap s)") (simp_all add: complete_nil)
  have post: "r < length (heap s1) \<and> state (heap s1 ! r) \<noteq> pending \<and> completions (heap s1 ! r) = None"
  proof (cases "state (heap s ! r) = pending")
    case True
    from complete_outer_post[OF r True assms] show ?thesis by simp
  next
    case False
    with assms r show ?thesis by (auto simp: complete_loser)
  qed
  then have "complete r v2 s1 = Inr (upd r (\<lambda>a. a\<lparr>completions := None\<rparr>) s1)"
    by (simp add: complete_loser)
  moreover have "upd r (\<lambda>a. a\<lparr>completions := None\<rparr>) s1 = s1"
    using post by (intro upd_same) simp
  ultimately show ?thesis by simp
qed

lemma complete_fresh_cell:
  assumes n: "n < length (heap s)" and f: "heap s ! n = fresh"
  shows "complete n y s = Inr (upd n (\<lambda>_. completed_cell y) s)"
proof -
  have p: "state (heap s ! n) = pending" by (simp add: f fresh_def)
  show ?thesis
    unfolding complete_winner[OF n p]
    using n
    by (simp add: async_complete_first f fresh_def newAsync_def close_done_def elems_def
        completed_cell_def upd_def)
qed


lemma complete_full_post:
  assumes r: "r < length (heap s)" and p: "state (heap s ! r) = pending"
    and ip: "a_state (async (heap s ! r)) = pending"
    and eq: "complete r v s = Inr s'"
  shows "heap s' ! r = completed_cell v"
proof -
  let ?s2 = "upd r (\<lambda>a. a\<lparr>result := v\<rparr>) (upd r (\<lambda>a. a\<lparr>state := completed\<rparr>) s)"
  let ?s0 = "upd r (\<lambda>a. a\<lparr>async := (async a)\<lparr>a_done := Closed\<rparr>\<rparr>)
               (upd r (\<lambda>a. a\<lparr>async := (async a)\<lparr>a_state := completed\<rparr>\<rparr>) ?s2)"
  from complete_winnerE[OF r p eq] obtain s3 s4 s5 where
    a: "async_complete r ?s2 = Inr s3"
    and c: "close_done r s3 = Inr s4"
    and rc: "run_completions (elems (completions (heap s4 ! r))) v s4 = Inr s5"
    and s': "s' = upd r (\<lambda>a. a\<lparr>completions := None\<rparr>) s5" by blast
  have ip2: "a_state (async (heap ?s2 ! r)) = pending" using r ip by simp
  from async_complete_firstE[OF ip2 a] obtain s1 where
    rt: "run_thunks (a_completions (async (heap ?s2 ! r))) ?s0 = Inr s1"
    and s3: "s3 = upd r (\<lambda>a. a\<lparr>async := (async a)\<lparr>a_completions := []\<rparr>\<rparr>) s1" by blast
  have r0: "r < length (heap ?s0)" using r by simp
  have np0: "state (heap ?s0 ! r) \<noteq> pending" using r by simp
  have i0: "a_state (async (heap ?s0 ! r)) = completed" "a_done (async (heap ?s0 ! r)) = Closed"
    using r by simp_all
  have k1: "cell_kept True (heap ?s0 ! r) (heap s1 ! r)"
    by (rule frame(3)[rule_format, OF rt r0 np0])
  have l1: "length (heap s1) = length (heap s)"
    using heap_length(3)[rule_format, OF rt] by simp
  have i3: "async (heap s3 ! r) = \<lparr>a_state = completed, a_completions = [], a_done = Closed\<rparr>"
    using k1 i0 l1 r by (simp add: s3 cell_kept_def)
  have l3: "length (heap s3) = length (heap s)" using l1 by (simp add: s3)
  have i4: "async (heap s4 ! r) = \<lparr>a_state = completed, a_completions = [], a_done = Closed\<rparr>"
    and l4: "length (heap s4) = length (heap s)"
    and np4: "state (heap s4 ! r) \<noteq> pending"
    using c i3 l3 r k1 by (auto simp: close_done_def s3 cell_kept_def split: if_splits)
  have r4: "r < length (heap s4)" using l4 r by simp
  have k5: "cell_kept True (heap s4 ! r) (heap s5 ! r)"
    by (rule frame(6)[rule_format, OF rc r4 np4])
  have l5: "length (heap s5) = length (heap s)"
    using heap_length(6)[rule_format, OF rc] l4 by simp
  have i': "async (heap s' ! r) = \<lparr>a_state = completed, a_completions = [], a_done = Closed\<rparr>"
    using k5 i4 l5 r by (simp add: s' cell_kept_def)
  from complete_outer_post[OF r p eq] i' show ?thesis
    by (simp add: completed_cell_def)
qed

text \<open>
  \<open>completed_with r x s\<close>: in \<open>s\<close> the object \<open>r\<close> has been completed with \<open>x\<close>: its
  state and the state of its signal are completed, its payload is \<open>x\<close> and \<^verbatim>\<open>done\<close> is
  closed. This is what a returned call of \<open>complete\<close> establishes on a pending object
  (\<open>complete_full_post\<close>).
\<close>

definition completed_with :: "ref \<Rightarrow> 'v iface \<Rightarrow> ('v, 'w) st \<Rightarrow> bool" where
  "completed_with r x s \<longleftrightarrow>
     r < length (heap s) \<and> state (heap s ! r) = completed \<and> result (heap s ! r) = x \<and>
     done_ch (heap s ! r) = Closed \<and> a_state (async (heap s ! r)) = completed"

lemma completed_cell_completed_with:
  "r < length (heap s) \<Longrightarrow> heap s ! r = completed_cell x \<Longrightarrow> completed_with r x s"
  by (simp add: completed_with_def completed_cell_def)

lemma applyThen_completed_eq:
  assumes "completed_with r x s"
  shows "applyThen r f s =
     (case f x (world s) of
        Inl p \<Rightarrow> Inl p
      | Inr (y, w) \<Rightarrow> Inr (length (heap s), \<lparr>heap = heap s @ [completed_cell y], world = w\<rparr>))"
proof -
  let ?n = "length (heap s)"
  let ?s1 = "s\<lparr>heap := heap s @ [fresh]\<rparr>"
  from assms have r: "r < length (heap s)" and i: "a_state (async (heap s ! r)) = completed"
    and x: "result (heap s ! r) = x" by (simp_all add: completed_with_def)
  have acc: "accept r (ApplyThen_closure f ?n) ?s1 =
      (case f x (world s) of Inl p \<Rightarrow> Inl p | Inr (y, w) \<Rightarrow> complete ?n y (?s1\<lparr>world := w\<rparr>))"
    using r i x by (simp add: accept_def async_accept_def nth_append)
  have fin: "complete ?n y (?s1\<lparr>world := w\<rparr>) = Inr \<lparr>heap = heap s @ [completed_cell y], world = w\<rparr>" for y w
    by (subst complete_fresh_cell) (simp_all add: upd_def)
  show ?thesis
    using r by (simp add: applyThen_def newAsyncResult_eq acc fin split: sum.splits prod.splits)
qed


subsection \<open>Registering a link does not disturb the other continuations\<close>

text \<open>
  A state is well formed when every reference held by a registered callback is
  allocated. \<^verbatim>\<open>applyThen\<close> registers its closure with the reference it has just
  allocated, and no other code builds such a closure, so every state built with the
  operations of \<^verbatim>\<open>async_result.go\<close> is well formed.
\<close>

fun completion_ok :: "nat \<Rightarrow> ('v, 'w) completion \<Rightarrow> bool" where
  "completion_ok n (Consumer k) = True"
| "completion_ok n (ApplyThen_closure f m) = (m < n)"

fun thunk_ok :: "nat \<Rightarrow> ('v, 'w) thunk \<Rightarrow> bool" where
  "thunk_ok n (Accept_closure q c) = (q < n \<and> completion_ok n c)"

definition cell_ok :: "nat \<Rightarrow> ('v, 'w) asyncResult \<Rightarrow> bool" where
  "cell_ok n a \<longleftrightarrow>
     list_all (thunk_ok n) (a_completions (async a)) \<and>
     list_all (completion_ok n) (elems (completions a))"

definition bounded :: "nat \<Rightarrow> ('v, 'w) st \<Rightarrow> bool" where
  "bounded n s \<longleftrightarrow> list_all (cell_ok n) (heap s)"

definition well_formed :: "('v, 'w) st \<Rightarrow> bool" where
  "well_formed s \<longleftrightarrow> bounded (length (heap s)) s"

lemma bounded_world [simp]: "bounded n (s\<lparr>world := w\<rparr>) = bounded n s"
  by (simp add: bounded_def)

lemma bounded_nth: "bounded n s \<Longrightarrow> q < length (heap s) \<Longrightarrow> cell_ok n (heap s ! q)"
  by (simp add: bounded_def list_all_length)

lemma bounded_upd:
  assumes "bounded n s" and "cell_ok n (heap s ! r) \<Longrightarrow> cell_ok n (g (heap s ! r))"
  shows "bounded n (upd r g s)"
  using assms
  by (cases "r < length (heap s)")
     (auto simp: bounded_def upd_def list_all_length nth_list_update list_update_beyond)

lemma close_done_bounded: "close_done r s = Inr s' \<Longrightarrow> bounded n s \<Longrightarrow> bounded n s'"
  by (auto simp: close_done_def cell_ok_def split: if_splits intro!: bounded_upd)

lemma bounded_preserved:
  "\<forall>s'. complete r v s = Inr s' \<longrightarrow> bounded n s \<longrightarrow> bounded n s'"
  "\<forall>s'. async_complete r s = Inr s' \<longrightarrow> bounded n s \<longrightarrow> bounded n s'"
  "\<forall>s'. run_thunks ts s = Inr s' \<longrightarrow> bounded n s \<longrightarrow> bounded n s'"
  "\<forall>s'. run_thunk t s = Inr s' \<longrightarrow> bounded n s \<longrightarrow> bounded n s'"
  "\<forall>s'. invoke c v s = Inr s' \<longrightarrow> bounded n s \<longrightarrow> bounded n s'"
  "\<forall>s'. run_completions cs v s = Inr s' \<longrightarrow> bounded n s \<longrightarrow> bounded n s'"
proof (induction r v s and r s and ts s and t s and c v s and cs v s rule: complete_induct)
  case (1 r v s)
  show ?case
  proof (intro allI impI)
    fix s' assume eq: "complete r v s = Inr s'" and b: "bounded n s"
    have r: "r < length (heap s)"
      using eq by (cases "r < length (heap s)") (simp_all add: complete_nil)
    show "bounded n s'"
    proof (cases "state (heap s ! r) = pending")
      case False
      then have "s' = upd r (\<lambda>a. a\<lparr>completions := None\<rparr>) s"
        using eq r by (simp add: complete_loser)
      then show ?thesis using b by (auto intro!: bounded_upd simp: cell_ok_def elems_def)
    next
      case True
      let ?s2 = "upd r (\<lambda>a. a\<lparr>result := v\<rparr>) (upd r (\<lambda>a. a\<lparr>state := completed\<rparr>) s)"
      from complete_winnerE[OF r True eq] obtain s3 s4 s5 where
        a: "async_complete r ?s2 = Inr s3"
        and c: "close_done r s3 = Inr s4"
        and rc: "run_completions (elems (completions (heap s4 ! r))) v s4 = Inr s5"
        and s': "s' = upd r (\<lambda>a. a\<lparr>completions := None\<rparr>) s5" by blast
      have "bounded n ?s2" using b by (auto intro!: bounded_upd simp: cell_ok_def)
      then have "bounded n s3" using 1(1)[OF r True, rule_format, OF a] by simp
      then have "bounded n s4" using c by (rule close_done_bounded[rotated])
      then have "bounded n s5" using 1(2)[OF r True a c, rule_format, OF rc] by simp
      then show ?thesis unfolding s' by (auto intro!: bounded_upd simp: cell_ok_def elems_def)
    qed
  qed
next
  case (2 r s)
  show ?case
  proof (intro allI impI)
    fix s' assume eq: "async_complete r s = Inr s'" and b: "bounded n s"
    show "bounded n s'"
    proof (cases "a_state (async (heap s ! r)) = pending")
      case False
      with eq b show ?thesis by (simp add: async_complete_again)
    next
      case True
      let ?s0 = "upd r (\<lambda>a. a\<lparr>async := (async a)\<lparr>a_done := Closed\<rparr>\<rparr>)
               (upd r (\<lambda>a. a\<lparr>async := (async a)\<lparr>a_state := completed\<rparr>\<rparr>) s)"
      from async_complete_firstE[OF True eq] obtain s1 where
        rt: "run_thunks (a_completions (async (heap s ! r))) ?s0 = Inr s1"
        and s': "s' = upd r (\<lambda>a. a\<lparr>async := (async a)\<lparr>a_completions := []\<rparr>\<rparr>) s1" by blast
      have "bounded n ?s0" using b by (auto intro!: bounded_upd simp: cell_ok_def)
      then have "bounded n s1" using 2[OF True, rule_format, OF rt] by simp
      then show ?thesis unfolding s' by (auto intro!: bounded_upd simp: cell_ok_def)
    qed
  qed
next
  case (3 s)
  then show ?case by simp
next
  case (4 t ts s)
  show ?case
  proof (intro allI impI)
    fix s' assume eq: "run_thunks (t # ts) s = Inr s'" and b: "bounded n s"
    from eq obtain s1 where a: "run_thunk t s = Inr s1" and c: "run_thunks ts s1 = Inr s'"
      by (rule run_thunks_ConsE)
    from 4(1)[rule_format, OF a b] 4(2)[OF a, rule_format, OF c] show "bounded n s'" by simp
  qed
next
  case (5 r c s)
  show ?case
  proof (intro allI impI)
    fix s' assume eq: "run_thunk (Accept_closure r c) s = Inr s'" and b: "bounded n s"
    from eq have r: "r < length (heap s)" and i: "invoke c (result (heap s ! r)) s = Inr s'"
      by (simp_all split: if_splits)
    from 5[OF r, rule_format, OF i b] show "bounded n s'" .
  qed
next
  case (6 k v s)
  show ?case by (auto split: sum.splits)
next
  case (7 f m v s)
  show ?case
  proof (intro allI impI)
    fix s' assume eq: "invoke (ApplyThen_closure f m) v s = Inr s'" and b: "bounded n s"
    from eq obtain nv w where f: "f v (world s) = Inr (nv, w)"
      and c: "complete m nv (s\<lparr>world := w\<rparr>) = Inr s'" by (rule invoke_ApplyThenE)
    from 7[OF f refl, rule_format, OF c] b show "bounded n s'" by simp
  qed
next
  case (8 v s)
  then show ?case by simp
next
  case (9 c cs v s)
  show ?case
  proof (intro allI impI)
    fix s' assume eq: "run_completions (c # cs) v s = Inr s'" and b: "bounded n s"
    from eq obtain s1 where a: "invoke c v s = Inr s1" and d: "run_completions cs v s1 = Inr s'"
      by (rule run_completions_ConsE)
    from 9(1)[rule_format, OF a b] 9(2)[OF a, rule_format, OF d] show "bounded n s'" by simp
  qed
qed


text \<open>
  \<open>ext r t c z\<close> is \<open>z\<close> with one more object \<open>c\<close> and one more continuation \<open>t\<close>
  registered on \<open>r\<close>. When \<open>r\<close> is no longer pending, its continuations are not run
  again, and a run from \<open>ext r t c z\<close> does what the run from \<open>z\<close> does.
\<close>

definition add_thunk :: "('v, 'w) thunk \<Rightarrow> ('v, 'w) asyncResult \<Rightarrow> ('v, 'w) asyncResult" where
  "add_thunk t a = a\<lparr>async := (async a)\<lparr>a_completions := a_completions (async a) @ [t]\<rparr>\<rparr>"

definition ext :: "ref \<Rightarrow> ('v, 'w) thunk \<Rightarrow> ('v, 'w) asyncResult \<Rightarrow> ('v, 'w) st \<Rightarrow> ('v, 'w) st" where
  "ext r t c z = z\<lparr>heap := (heap z)[r := add_thunk t (heap z ! r)] @ [c]\<rparr>"

fun on_state :: "('a \<Rightarrow> 'b) \<Rightarrow> panic + 'a \<Rightarrow> panic + 'b" where
  "on_state E (Inl p) = Inl p"
| "on_state E (Inr s) = Inr (E s)"

definition sim_inv :: "nat \<Rightarrow> ref \<Rightarrow> ('v, 'w) st \<Rightarrow> bool" where
  "sim_inv n r z \<longleftrightarrow>
     length (heap z) = n \<and> r < n \<and> state (heap z ! r) \<noteq> pending \<and> bounded n z"

lemma add_thunk_fields [simp]:
  "state (add_thunk t a) = state a" "result (add_thunk t a) = result a"
  "done_ch (add_thunk t a) = done_ch a" "completions (add_thunk t a) = completions a"
  by (simp_all add: add_thunk_def)

lemma ext_world [simp]: "world (ext r t c z) = world z"
  by (simp add: ext_def)

lemma ext_world_update [simp]: "ext r t c (z\<lparr>world := w\<rparr>) = (ext r t c z)\<lparr>world := w\<rparr>"
  by (simp add: ext_def)

lemma ext_length [simp]: "length (heap (ext r t c z)) = Suc (length (heap z))"
  by (simp add: ext_def)

lemma ext_nth:
  "m < length (heap z) \<Longrightarrow>
   heap (ext r t c z) ! m = (if m = r then add_thunk t (heap z ! m) else heap z ! m)"
  by (simp add: ext_def nth_append)

lemma ext_nth_fields [simp]:
  assumes "m < length (heap z)"
  shows "state (heap (ext r t c z) ! m) = state (heap z ! m)"
    and "result (heap (ext r t c z) ! m) = result (heap z ! m)"
    and "done_ch (heap (ext r t c z) ! m) = done_ch (heap z ! m)"
    and "completions (heap (ext r t c z) ! m) = completions (heap z ! m)"
  using assms by (simp_all add: ext_nth)

lemma ext_upd:
  assumes "m < length (heap z)"
    and "m = r \<Longrightarrow> g (add_thunk t (heap z ! r)) = add_thunk t (g (heap z ! r))"
  shows "upd m g (ext r t c z) = ext r t c (upd m g z)"
proof (cases "m = r")
  case True
  with assms show ?thesis
    by (simp add: upd_def ext_def nth_append list_update_append)
next
  case False
  with assms(1) show ?thesis
    by (simp add: upd_def ext_def nth_append list_update_append list_update_swap)
qed

lemma ext_upd_neq:
  "m < length (heap z) \<Longrightarrow> m \<noteq> r \<Longrightarrow> upd m g (ext r t c z) = ext r t c (upd m g z)"
  by (rule ext_upd) simp_all

lemma close_done_ext:
  "m < length (heap z) \<Longrightarrow> close_done m (ext r t c z) = on_state (ext r t c) (close_done m z)"
  by (simp add: close_done_def ext_upd add_thunk_def)

lemma sim_inv_world [simp]: "sim_inv n r (z\<lparr>world := w\<rparr>) = sim_inv n r z"
  by (simp add: sim_inv_def)

lemma sim_inv_preserved:
  "complete m v z = Inr z' \<Longrightarrow> sim_inv n r z \<Longrightarrow> sim_inv n r z'"
  "async_complete m z = Inr z' \<Longrightarrow> sim_inv n r z \<Longrightarrow> sim_inv n r z'"
  "run_thunks ts z = Inr z' \<Longrightarrow> sim_inv n r z \<Longrightarrow> sim_inv n r z'"
  "run_thunk t z = Inr z' \<Longrightarrow> sim_inv n r z \<Longrightarrow> sim_inv n r z'"
  "invoke c v z = Inr z' \<Longrightarrow> sim_inv n r z \<Longrightarrow> sim_inv n r z'"
  "run_completions cs v z = Inr z' \<Longrightarrow> sim_inv n r z \<Longrightarrow> sim_inv n r z'"
proof -
  show "complete m v z = Inr z' \<Longrightarrow> sim_inv n r z \<Longrightarrow> sim_inv n r z'"
    using heap_length(1)[rule_format, of m v z z'] frame(1)[rule_format, of m v z z' r]
      bounded_preserved(1)[rule_format, of m v z z' n]
    by (simp add: sim_inv_def cell_kept_def)
  show "async_complete m z = Inr z' \<Longrightarrow> sim_inv n r z \<Longrightarrow> sim_inv n r z'"
    using heap_length(2)[rule_format, of m z z'] frame(2)[rule_format, of m z z' r]
      bounded_preserved(2)[rule_format, of m z z' n]
    by (simp add: sim_inv_def cell_kept_def)
  show "run_thunks ts z = Inr z' \<Longrightarrow> sim_inv n r z \<Longrightarrow> sim_inv n r z'"
    using heap_length(3)[rule_format, of ts z z'] frame(3)[rule_format, of ts z z' r]
      bounded_preserved(3)[rule_format, of ts z z' n]
    by (simp add: sim_inv_def cell_kept_def)
  show "run_thunk t z = Inr z' \<Longrightarrow> sim_inv n r z \<Longrightarrow> sim_inv n r z'"
    using heap_length(4)[rule_format, of t z z'] frame(4)[rule_format, of t z z' r]
      bounded_preserved(4)[rule_format, of t z z' n]
    by (simp add: sim_inv_def cell_kept_def)
  show "invoke c v z = Inr z' \<Longrightarrow> sim_inv n r z \<Longrightarrow> sim_inv n r z'"
    using heap_length(5)[rule_format, of c v z z'] frame(5)[rule_format, of c v z z' r]
      bounded_preserved(5)[rule_format, of c v z z' n]
    by (simp add: sim_inv_def cell_kept_def)
  show "run_completions cs v z = Inr z' \<Longrightarrow> sim_inv n r z \<Longrightarrow> sim_inv n r z'"
    using heap_length(6)[rule_format, of cs v z z'] frame(6)[rule_format, of cs v z z' r]
      bounded_preserved(6)[rule_format, of cs v z z' n]
    by (simp add: sim_inv_def cell_kept_def)
qed


lemma simulation:
  "sim_inv n r z \<longrightarrow> m < n \<longrightarrow>
     complete m v (ext r th c0 z) = on_state (ext r th c0) (complete m v z)"
  "sim_inv n r z \<longrightarrow> m < n \<longrightarrow> m \<noteq> r \<longrightarrow>
     async_complete m (ext r th c0 z) = on_state (ext r th c0) (async_complete m z)"
  "sim_inv n r z \<longrightarrow> list_all (thunk_ok n) ts \<longrightarrow>
     run_thunks ts (ext r th c0 z) = on_state (ext r th c0) (run_thunks ts z)"
  "sim_inv n r z \<longrightarrow> thunk_ok n t \<longrightarrow>
     run_thunk t (ext r th c0 z) = on_state (ext r th c0) (run_thunk t z)"
  "sim_inv n r z \<longrightarrow> completion_ok n c \<longrightarrow>
     invoke c v (ext r th c0 z) = on_state (ext r th c0) (invoke c v z)"
  "sim_inv n r z \<longrightarrow> list_all (completion_ok n) cs \<longrightarrow>
     run_completions cs v (ext r th c0 z) = on_state (ext r th c0) (run_completions cs v z)"
proof (induction m v z and m z and ts z and t z and c v z and cs v z rule: complete_induct)
  case (1 m v z)
  show ?case
  proof (intro impI)
    assume inv: "sim_inv n r z" and m: "m < n"
    from inv have len: "length (heap z) = n" and np: "state (heap z ! r) \<noteq> pending"
      and b: "bounded n z" by (simp_all add: sim_inv_def)
    have mz: "m < length (heap z)" using m len by simp
    have me: "m < length (heap (ext r th c0 z))" using mz by simp
    show "complete m v (ext r th c0 z) = on_state (ext r th c0) (complete m v z)"
    proof (cases "state (heap z ! m) = pending")
      case False
      then have "state (heap (ext r th c0 z) ! m) \<noteq> pending" using mz by simp
      then show ?thesis using False mz me
        by (simp add: complete_loser ext_upd add_thunk_def)
    next
      case True
      then have mr: "m \<noteq> r" using np by auto
      have pe: "state (heap (ext r th c0 z) ! m) = pending" using True mz by simp
      let ?s2 = "upd m (\<lambda>a. a\<lparr>result := v\<rparr>) (upd m (\<lambda>a. a\<lparr>state := completed\<rparr>) z)"
      have mark: "upd m (\<lambda>a. a\<lparr>result := v\<rparr>) (upd m (\<lambda>a. a\<lparr>state := completed\<rparr>) (ext r th c0 z))
                  = ext r th c0 ?s2"
        using mz mr by (simp add: ext_upd)
      have inv2: "sim_inv n r ?s2"
        using inv mr by (auto simp: sim_inv_def cell_ok_def intro!: bounded_upd)
      have ih1: "async_complete m (ext r th c0 ?s2) = on_state (ext r th c0) (async_complete m ?s2)"
        using 1(1)[OF mz True] inv2 m mr by simp
      show ?thesis
      proof (cases "async_complete m ?s2")
        case (Inl p)
        then show ?thesis
          by (simp add: complete_winner[OF mz True] complete_winner[OF me pe] mark ih1)
      next
        case (Inr s3)
        have inv3: "sim_inv n r s3" by (rule sim_inv_preserved(2)[OF Inr inv2])
        then have m3: "m < length (heap s3)" using m by (simp add: sim_inv_def)
        show ?thesis
        proof (cases "close_done m s3")
          case (Inl p)
          then show ?thesis
            by (simp add: complete_winner[OF mz True] complete_winner[OF me pe] mark ih1 Inr
                close_done_ext[OF m3])
        next
          case c: (Inr s4)
          have b4: "bounded n s4" using c inv3 by (auto simp: sim_inv_def intro: close_done_bounded)
          have l4: "length (heap s4) = n" using close_done_length[OF c] inv3 by (simp add: sim_inv_def)
          have s4r: "state (heap s4 ! r) \<noteq> pending"
            using close_done_nth[OF c, of r] mr inv3 by (simp add: sim_inv_def)
          have inv4: "sim_inv n r s4" using b4 l4 s4r inv by (simp add: sim_inv_def)
          have m4: "m < length (heap s4)" using l4 m by simp
          let ?cs = "elems (completions (heap s4 ! m))"
          have cs_ok: "list_all (completion_ok n) ?cs"
            using bounded_nth[OF b4 m4] by (simp add: cell_ok_def)
          have cse: "elems (completions (heap (ext r th c0 s4) ! m)) = ?cs" using m4 by simp
          have ih2: "run_completions ?cs v (ext r th c0 s4) = on_state (ext r th c0) (run_completions ?cs v s4)"
            using 1(2)[OF mz True Inr c] inv4 cs_ok by simp
          show ?thesis
          proof (cases "run_completions ?cs v s4")
            case (Inl p)
            then show ?thesis
              by (simp add: complete_winner[OF mz True] complete_winner[OF me pe] mark ih1 Inr
                  close_done_ext[OF m3] c cse ih2)
          next
            case rc: (Inr s5)
            have "sim_inv n r s5" by (rule sim_inv_preserved(6)[OF rc inv4])
            then have m5: "m < length (heap s5)" using m by (simp add: sim_inv_def)
            show ?thesis
              by (simp add: complete_winner[OF mz True] complete_winner[OF me pe] mark ih1 Inr
                  close_done_ext[OF m3] c cse ih2 rc ext_upd[OF m5] add_thunk_def)
          qed
        qed
      qed
    qed
  qed
next
  case (2 m z)
  show ?case
  proof (intro impI)
    assume inv: "sim_inv n r z" and m: "m < n" and mr: "m \<noteq> r"
    from inv have len: "length (heap z) = n" by (simp add: sim_inv_def)
    have mz: "m < length (heap z)" using m len by simp
    have cell: "heap (ext r th c0 z) ! m = heap z ! m" using mz mr by (simp add: ext_nth)
    show "async_complete m (ext r th c0 z) = on_state (ext r th c0) (async_complete m z)"
    proof (cases "a_state (async (heap z ! m)) = pending")
      case False
      then show ?thesis by (simp add: async_complete_again cell)
    next
      case True
      let ?s0 = "upd m (\<lambda>a. a\<lparr>async := (async a)\<lparr>a_done := Closed\<rparr>\<rparr>)
               (upd m (\<lambda>a. a\<lparr>async := (async a)\<lparr>a_state := completed\<rparr>\<rparr>) z)"
      let ?ts = "a_completions (async (heap z ! m))"
      have pe: "a_state (async (heap (ext r th c0 z) ! m)) = pending" using True cell by simp
      have mark: "upd m (\<lambda>a. a\<lparr>async := (async a)\<lparr>a_done := Closed\<rparr>\<rparr>)
               (upd m (\<lambda>a. a\<lparr>async := (async a)\<lparr>a_state := completed\<rparr>\<rparr>) (ext r th c0 z))
               = ext r th c0 ?s0"
        using mz mr by (simp add: ext_upd)
      have inv0: "sim_inv n r ?s0"
        using inv mr by (auto simp: sim_inv_def cell_ok_def intro!: bounded_upd)
      have ts_ok: "list_all (thunk_ok n) ?ts"
        using bounded_nth[OF _ mz] inv by (simp add: cell_ok_def sim_inv_def)
      have ih: "run_thunks ?ts (ext r th c0 ?s0) = on_state (ext r th c0) (run_thunks ?ts ?s0)"
        using 2[OF True] inv0 ts_ok by simp
      show ?thesis
      proof (cases "run_thunks ?ts ?s0")
        case (Inl p)
        then show ?thesis
          by (simp add: async_complete_first[OF True] async_complete_first[OF pe] cell mark ih)
      next
        case (Inr s1)
        have "sim_inv n r s1" by (rule sim_inv_preserved(3)[OF Inr inv0])
        then have m1: "m < length (heap s1)" using m by (simp add: sim_inv_def)
        show ?thesis
          by (simp add: async_complete_first[OF True] async_complete_first[OF pe] cell mark ih Inr
              ext_upd_neq[OF m1 mr])
      qed
    qed
  qed
next
  case (3 z)
  show ?case by simp
next
  case (4 t ts z)
  show ?case
  proof (intro impI)
    assume inv: "sim_inv n r z" and ok: "list_all (thunk_ok n) (t # ts)"
    have ih1: "run_thunk t (ext r th c0 z) = on_state (ext r th c0) (run_thunk t z)"
      using 4(1) inv ok by simp
    show "run_thunks (t # ts) (ext r th c0 z) = on_state (ext r th c0) (run_thunks (t # ts) z)"
    proof (cases "run_thunk t z")
      case (Inl p)
      then show ?thesis by (simp add: ih1)
    next
      case (Inr z1)
      have "sim_inv n r z1" by (rule sim_inv_preserved(4)[OF Inr inv])
      then show ?thesis using 4(2)[OF Inr] ok by (simp add: ih1 Inr)
    qed
  qed
next
  case (5 q c z)
  show ?case
  proof (intro impI)
    assume inv: "sim_inv n r z" and ok: "thunk_ok n (Accept_closure q c)"
    then have q: "q < length (heap z)" by (simp add: sim_inv_def)
    from 5[OF q] inv ok q show "run_thunk (Accept_closure q c) (ext r th c0 z)
        = on_state (ext r th c0) (run_thunk (Accept_closure q c) z)"
      by simp
  qed
next
  case (6 k v z)
  show ?case by (simp split: sum.splits)
next
  case (7 f q v z)
  show ?case
  proof (intro impI)
    assume inv: "sim_inv n r z" and ok: "completion_ok n (ApplyThen_closure f q)"
    show "invoke (ApplyThen_closure f q) v (ext r th c0 z)
        = on_state (ext r th c0) (invoke (ApplyThen_closure f q) v z)"
    proof (cases "f v (world z)")
      case (Inl p)
      then show ?thesis by simp
    next
      case (Inr yw)
      obtain y w where yw: "yw = (y, w)" by (cases yw)
      from 7[OF Inr yw[symmetric]] inv ok show ?thesis by (simp add: Inr yw)
    qed
  qed
next
  case (8 v z)
  show ?case by simp
next
  case (9 c cs v z)
  show ?case
  proof (intro impI)
    assume inv: "sim_inv n r z" and ok: "list_all (completion_ok n) (c # cs)"
    have ih1: "invoke c v (ext r th c0 z) = on_state (ext r th c0) (invoke c v z)"
      using 9(1) inv ok by simp
    show "run_completions (c # cs) v (ext r th c0 z)
        = on_state (ext r th c0) (run_completions (c # cs) v z)"
    proof (cases "invoke c v z")
      case (Inl p)
      then show ?thesis by (simp add: ih1)
    next
      case (Inr z1)
      have "sim_inv n r z1" by (rule sim_inv_preserved(5)[OF Inr inv])
      then show ?thesis using 9(2)[OF Inr] ok by (simp add: ih1 Inr)
    qed
  qed
qed


text \<open>
  \<open>pending_source r s\<close>: \<open>r\<close> is pending, with its signal, and its \<^verbatim>\<open>completions\<close> slice
  has no element (no code appends to it). Completing \<open>r\<close> after a link has been
  registered does what completing it without the link does, then calls the transform
  on the payload and completes the new object with its output.
\<close>

lemma run_thunks_append:
  "run_thunks (ts @ us) s = (case run_thunks ts s of Inl p \<Rightarrow> Inl p | Inr s' \<Rightarrow> run_thunks us s')"
  by (induction ts arbitrary: s) (simp_all split: sum.splits)

definition pending_source :: "ref \<Rightarrow> ('v, 'w) st \<Rightarrow> bool" where
  "pending_source r s \<longleftrightarrow>
     r < length (heap s) \<and> state (heap s ! r) = pending \<and>
     a_state (async (heap s ! r)) = pending \<and> elems (completions (heap s ! r)) = []"

lemma applyThen_pending_eq:
  assumes "r < length (heap s)" and "a_state (async (heap s ! r)) \<noteq> completed"
  shows "applyThen r f s =
     Inr (length (heap s),
          ext r (Accept_closure r (ApplyThen_closure f (length (heap s)))) fresh s)"
  using assms
  by (simp add: applyThen_def newAsyncResult_eq accept_def async_accept_def nth_append
      upd_def ext_def add_thunk_def list_update_append)

lemma chain_complete:
  assumes wf: "well_formed s" and ps: "pending_source r s"
    and t: "complete r x s = Inr t"
  shows "complete r x (ext r (Accept_closure r (ApplyThen_closure f (length (heap s)))) fresh s) =
     (case f x (world t) of
        Inl p \<Rightarrow> Inl p
      | Inr (y, w) \<Rightarrow> Inr \<lparr>heap = heap t @ [completed_cell y], world = w\<rparr>)"
proof -
  let ?n = "length (heap s)"
  let ?th = "Accept_closure r (ApplyThen_closure f ?n)"
  let ?E = "ext r ?th fresh"
  from ps have r: "r < ?n" and p: "state (heap s ! r) = pending"
    and ip: "a_state (async (heap s ! r)) = pending"
    and nocs: "elems (completions (heap s ! r)) = []" by (simp_all add: pending_source_def)
  let ?s2 = "upd r (\<lambda>a. a\<lparr>result := x\<rparr>) (upd r (\<lambda>a. a\<lparr>state := completed\<rparr>) s)"
  let ?s0 = "upd r (\<lambda>a. a\<lparr>async := (async a)\<lparr>a_done := Closed\<rparr>\<rparr>)
               (upd r (\<lambda>a. a\<lparr>async := (async a)\<lparr>a_state := completed\<rparr>\<rparr>) ?s2)"
  let ?cs = "a_completions (async (heap s ! r))"
  from complete_winnerE[OF r p t] obtain s3 s4 s5 where
    a: "async_complete r ?s2 = Inr s3"
    and c: "close_done r s3 = Inr s4"
    and rc: "run_completions (elems (completions (heap s4 ! r))) x s4 = Inr s5"
    and t': "t = upd r (\<lambda>a. a\<lparr>completions := None\<rparr>) s5" by blast
  have ip2: "a_state (async (heap ?s2 ! r)) = pending" using r ip by simp
  have cs2: "a_completions (async (heap ?s2 ! r)) = ?cs" using r by simp
  from async_complete_firstE[OF ip2 a] obtain u where
    rt: "run_thunks ?cs ?s0 = Inr u"
    and s3: "s3 = upd r (\<lambda>a. a\<lparr>async := (async a)\<lparr>a_completions := []\<rparr>\<rparr>) u"
    unfolding cs2 by blast
  \<comment> \<open>the run without the link\<close>
  have b: "bounded ?n s" using wf by (simp add: well_formed_def)
  have inv0: "sim_inv ?n r ?s0"
    using r b by (auto simp: sim_inv_def cell_ok_def intro!: bounded_upd)
  have cs_ok: "list_all (thunk_ok ?n) ?cs"
    using bounded_nth[OF b r] by (simp add: cell_ok_def)
  have invu: "sim_inv ?n r u" by (rule sim_inv_preserved(3)[OF rt inv0])
  then have lu: "length (heap u) = ?n" by (simp add: sim_inv_def)
  have r0: "r < length (heap ?s0)" using r by simp
  have np0: "state (heap ?s0 ! r) \<noteq> pending" using r by simp
  have ku: "cell_kept True (heap ?s0 ! r) (heap u ! r)"
    by (rule frame(3)[rule_format, OF rt r0 np0])
  have xu: "result (heap u ! r) = x" using ku r by (simp add: cell_kept_def)
  have cu: "elems (completions (heap u ! r)) = []"
    using ku r nocs by (auto simp: cell_kept_def elems_def)
  have du: "done_ch (heap s3 ! r) \<noteq> Closed" using c by (auto simp: close_done_def split: if_splits)
  have s4: "s4 = upd r (\<lambda>a. a\<lparr>done_ch := Closed\<rparr>) s3"
    using c by (auto simp: close_done_def split: if_splits)
  have c4: "elems (completions (heap s4 ! r)) = []"
    using cu lu r by (simp add: s4 s3)
  have s5: "s5 = s4" using rc c4 by simp
  have wt: "world t = world u" by (simp add: t' s5 s4 s3)
  have ht: "heap t = (heap u)[r := (heap u ! r)\<lparr>async := (async (heap u ! r))\<lparr>a_completions := []\<rparr>,
                                               done_ch := Closed, completions := None\<rparr>]"
    using lu r by (simp add: t' s5 s4 s3)
  \<comment> \<open>the run with the link\<close>
  have re: "r < length (heap (?E s))" using r by simp
  have pe: "state (heap (?E s) ! r) = pending" using r p by simp
  have mark: "upd r (\<lambda>a. a\<lparr>result := x\<rparr>) (upd r (\<lambda>a. a\<lparr>state := completed\<rparr>) (?E s)) = ?E ?s2"
    using r by (simp add: ext_upd add_thunk_def)
  have r2: "r < length (heap ?s2)" using r by simp
  have ipe: "a_state (async (heap (?E ?s2) ! r)) = pending"
    using r ip by (simp add: ext_nth add_thunk_def)
  have cse: "a_completions (async (heap (?E ?s2) ! r)) = ?cs @ [?th]"
    using r by (simp add: ext_nth add_thunk_def)
  have mark0: "upd r (\<lambda>a. a\<lparr>async := (async a)\<lparr>a_done := Closed\<rparr>\<rparr>)
               (upd r (\<lambda>a. a\<lparr>async := (async a)\<lparr>a_state := completed\<rparr>\<rparr>) (?E ?s2)) = ?E ?s0"
    using r by (simp add: ext_upd add_thunk_def)
  have sim: "run_thunks ?cs (?E ?s0) = Inr (?E u)"
    using simulation(3)[of ?n r ?s0 ?cs ?th fresh] inv0 cs_ok rt by simp
  have ru: "r < length (heap (?E u))" using lu r by simp
  have link: "run_thunks [?th] (?E u) =
      (case f x (world u) of
         Inl p \<Rightarrow> Inl p
       | Inr (y, w) \<Rightarrow> complete ?n y ((?E u)\<lparr>world := w\<rparr>))"
    using ru xu lu r by (simp split: sum.splits prod.splits)
  have new: "complete ?n y ((?E u)\<lparr>world := w\<rparr>) =
      Inr \<lparr>heap = (heap u)[r := add_thunk ?th (heap u ! r)] @ [completed_cell y], world = w\<rparr>" for y w
    by (subst complete_fresh_cell)
       (simp_all add: ext_def lu[symmetric] nth_append upd_def list_update_append)
  have thunks: "run_thunks (?cs @ [?th]) (?E ?s0) =
      (case f x (world u) of
         Inl p \<Rightarrow> Inl p
       | Inr (y, w) \<Rightarrow>
           Inr \<lparr>heap = (heap u)[r := add_thunk ?th (heap u ! r)] @ [completed_cell y], world = w\<rparr>)"
    by (simp add: run_thunks_append sim link new del: run_thunks.simps split: sum.splits prod.splits)
  have l3: "length (heap s3) = ?n" using lu by (simp add: s3)
  have l4: "length (heap s4) = ?n" using l3 by (simp add: s4)
  show ?thesis
  proof (cases "f x (world u)")
    case (Inl q)
    then show ?thesis
      by (simp add: complete_winner[OF re pe] mark async_complete_first[OF ipe] cse mark0 thunks wt
          del: run_thunks.simps)
  next
    case (Inr yw)
    obtain y w where yw: "yw = (y, w)" by (cases yw)
    let ?cc = "completed_cell y :: ('a, 'b) asyncResult"
    have cl: "upd r (\<lambda>a. a\<lparr>async := (async a)\<lparr>a_completions := []\<rparr>\<rparr>)
                \<lparr>heap = (heap u)[r := add_thunk ?th (heap u ! r)] @ [?cc], world = w\<rparr>
              = \<lparr>heap = heap s3 @ [?cc], world = w\<rparr>"
      using lu r by (simp add: upd_def s3 nth_append list_update_append add_thunk_def)
    have ac: "async_complete r (?E ?s2) = Inr \<lparr>heap = heap s3 @ [?cc], world = w\<rparr>"
      by (simp add: async_complete_first[OF ipe] cse mark0 thunks Inr yw cl del: run_thunks.simps)
    have cd: "close_done r \<lparr>heap = heap s3 @ [?cc], world = w\<rparr> = Inr \<lparr>heap = heap s4 @ [?cc], world = w\<rparr>"
      using du l3 r by (simp add: close_done_def upd_def s4 nth_append list_update_append)
    have ce: "elems (completions ((heap s4 @ [?cc]) ! r)) = []"
      using c4 l4 r by (simp add: nth_append)
    have fin: "upd r (\<lambda>a. a\<lparr>completions := None\<rparr>) \<lparr>heap = heap s4 @ [?cc], world = w\<rparr>
              = \<lparr>heap = heap t @ [?cc], world = w\<rparr>"
      using l4 r by (simp add: upd_def t' s5 nth_append list_update_append)
    show ?thesis
      by (simp add: complete_winner[OF re pe] mark ac cd ce fin wt Inr yw)
  qed
qed

lemma asCompletedAsyncResult_eq:
  "asCompletedAsyncResult v s = Inr (length (heap s), s\<lparr>heap := heap s @ [completed_cell v]\<rparr>)"
proof -
  have "complete (length (heap s)) v (s\<lparr>heap := heap s @ [fresh]\<rparr>) =
        Inr (s\<lparr>heap := heap s @ [completed_cell v]\<rparr>)"
    by (subst complete_fresh_cell) (simp_all add: upd_def)
  then show ?thesis
    by (simp add: asCompletedAsyncResult_def newAsyncResult_eq)
qed

section \<open>Several goroutines completing one result\<close>

text \<open>
  For the claims about a race, \<^verbatim>\<open>complete\<close> is cut at its statements. A goroutine that
  runs \<^verbatim>\<open>complete(arg)\<close> on the \<^verbatim>\<open>asyncResult\<close> \<open>r\<close> has a program counter, the line it
  executes next, and the local \<open>swapped\<close>, what the compare-and-swap returned. One step
  executes one line on the shared state: line 73 is the atomic compare-and-swap; line 75
  is the whole call of \<^verbatim>\<open>async.complete()\<close>, continuations included, and line 79 the whole
  loop. The read lock of lines 77-78 is on the mutex of the \<^verbatim>\<open>asyncResult\<close> itself, which
  no code write-locks, so it never blocks and is no step. Goroutines interleave in any
  order; a goroutine whose step panics takes no step.
\<close>

datatype pc = L73 | L74 | L75 | L76 | L79 | L83 | Returned

record 'v goroutine =
  pc :: pc
  arg :: "'v iface"
  swapped :: bool

definition start :: "'v iface \<Rightarrow> 'v goroutine" where
  "start v = \<lparr>pc = L73, arg = v, swapped = False\<rparr>"

fun complete_step :: "ref \<Rightarrow> 'v goroutine \<Rightarrow> ('v, 'w) st \<Rightarrow> panic + ('v goroutine \<times> ('v, 'w) st)" where
  "complete_step r g s =
     (case pc g of
        L73 \<Rightarrow>
          if r < length (heap s) then
            if state (heap s ! r) = pending
            then Inr (g\<lparr>pc := L74, swapped := True\<rparr>, upd r (\<lambda>a. a\<lparr>state := completed\<rparr>) s)
            else Inr (g\<lparr>pc := L83, swapped := False\<rparr>, s)
          else Inl NilDereference
      | L74 \<Rightarrow> Inr (g\<lparr>pc := L75\<rparr>, upd r (\<lambda>a. a\<lparr>result := arg g\<rparr>) s)
      | L75 \<Rightarrow> (case async_complete r s of Inl p \<Rightarrow> Inl p | Inr s' \<Rightarrow> Inr (g\<lparr>pc := L76\<rparr>, s'))
      | L76 \<Rightarrow> (case close_done r s of Inl p \<Rightarrow> Inl p | Inr s' \<Rightarrow> Inr (g\<lparr>pc := L79\<rparr>, s'))
      | L79 \<Rightarrow>
          (case run_completions (elems (completions (heap s ! r))) (arg g) s of
             Inl p \<Rightarrow> Inl p
           | Inr s' \<Rightarrow> Inr (g\<lparr>pc := L83\<rparr>, s'))
      | L83 \<Rightarrow> Inr (g\<lparr>pc := Returned\<rparr>, upd r (\<lambda>a. a\<lparr>completions := None\<rparr>) s)
      | Returned \<Rightarrow> Inr (g, s))"

text \<open>One goroutine that runs alone through its six lines does what \<open>complete\<close> does.\<close>

fun run_alone :: "nat \<Rightarrow> ref \<Rightarrow> 'v goroutine \<Rightarrow> ('v, 'w) st \<Rightarrow> panic + ('v goroutine \<times> ('v, 'w) st)" where
  "run_alone 0 r g s = Inr (g, s)"
| "run_alone (Suc k) r g s =
     (case complete_step r g s of Inl p \<Rightarrow> Inl p | Inr (g', s') \<Rightarrow> run_alone k r g' s')"

lemma complete_is_run_alone:
  "complete r v s =
     (case run_alone 6 r (start v) s of
        Inl p \<Rightarrow> Inl p
      | Inr (g, s') \<Rightarrow> Inr s')"
proof (cases "r < length (heap s)")
  case False
  then show ?thesis by (simp add: complete_nil eval_nat_numeral start_def)
next
  case r: True
  show ?thesis
  proof (cases "state (heap s ! r) = pending")
    case False
    then show ?thesis using r by (simp add: complete_loser eval_nat_numeral start_def)
  next
    case True
    let ?s2 = "upd r (\<lambda>a. a\<lparr>result := v\<rparr>) (upd r (\<lambda>a. a\<lparr>state := completed\<rparr>) s)"
    show ?thesis
    proof (cases "async_complete r ?s2")
      case (Inl p)
      then show ?thesis using r True
        by (simp add: complete_winner eval_nat_numeral start_def)
    next
      case s3: (Inr s3)
      show ?thesis
      proof (cases "close_done r s3")
        case (Inl p)
        then show ?thesis using r True s3
          by (simp add: complete_winner eval_nat_numeral start_def)
      next
        case s4: (Inr s4)
        show ?thesis
        proof (cases "run_completions (elems (completions (heap s4 ! r))) v s4")
          case (Inl p)
          then show ?thesis using r True s3 s4
            by (simp add: complete_winner eval_nat_numeral start_def)
        next
          case (Inr s5)
          then show ?thesis using r True s3 s4
            by (simp add: complete_winner eval_nat_numeral start_def)
        qed
      qed
    qed
  qed
qed

record ('v, 'w) config =
  goroutines :: "'v goroutine list"
  shared :: "('v, 'w) st"

inductive step :: "ref \<Rightarrow> ('v, 'w) config \<Rightarrow> ('v, 'w) config \<Rightarrow> bool" for r where
  step: "i < length (goroutines c) \<Longrightarrow> pc (goroutines c ! i) \<noteq> Returned \<Longrightarrow>
         complete_step r (goroutines c ! i) (shared c) = Inr (g', s') \<Longrightarrow>
         step r c \<lparr>goroutines = (goroutines c)[i := g'], shared = s'\<rparr>"


text \<open>
  \<open>run_schedule\<close> runs the goroutines in a given order, one step for each index of the
  list; it computes a configuration that the step relation reaches.
\<close>

fun run_schedule :: "nat list \<Rightarrow> ref \<Rightarrow> ('v, 'w) config \<Rightarrow> ('v, 'w) config option" where
  "run_schedule [] r c = Some c"
| "run_schedule (i # is) r c =
     (if i < length (goroutines c) \<and> pc (goroutines c ! i) \<noteq> Returned then
        (case complete_step r (goroutines c ! i) (shared c) of
           Inl p \<Rightarrow> None
         | Inr (g', s') \<Rightarrow> run_schedule is r \<lparr>goroutines = (goroutines c)[i := g'], shared = s'\<rparr>)
      else None)"

lemma run_schedule_steps: "run_schedule is r c = Some c' \<Longrightarrow> rtranclp (step r) c c'"
proof (induction "is" arbitrary: c)
  case Nil
  then show ?case by simp
next
  case (Cons i "is")
  from Cons.prems have i: "i < length (goroutines c)" and p: "pc (goroutines c ! i) \<noteq> Returned"
    by (simp_all split: if_splits)
  from Cons.prems i p obtain g' s' where
    st: "complete_step r (goroutines c ! i) (shared c) = Inr (g', s')"
    and rest: "run_schedule is r \<lparr>goroutines = (goroutines c)[i := g'], shared = s'\<rparr> = Some c'"
    by (cases "complete_step r (goroutines c ! i) (shared c)") (auto simp del: complete_step.simps)
  have "step r c \<lparr>goroutines = (goroutines c)[i := g'], shared = s'\<rparr>"
    by (rule step.intros[OF i p st])
  with Cons.IH[OF rest] show ?case by (rule converse_rtranclp_into_rtranclp[rotated])
qed

text \<open>
  The invariant of a race on an object that is pending, with \<^verbatim>\<open>done\<close> open, when the
  goroutines start. While the state is pending every goroutine is still at line 73. Once
  it is not, exactly one goroutine has swapped; the payload is its argument as soon as it
  has passed line 74; \<^verbatim>\<open>done\<close> is closed exactly when it has passed line 76; the others
  are at line 73, at line 83 or have returned.
\<close>

definition loser_ok :: "'v goroutine \<Rightarrow> bool" where
  "loser_ok g \<longleftrightarrow> \<not> swapped g \<and> (pc g = L73 \<or> pc g = L83 \<or> pc g = Returned)"

definition winner_ok :: "'v goroutine \<Rightarrow> ('v, 'w) asyncResult \<Rightarrow> bool" where
  "winner_ok g a \<longleftrightarrow>
     swapped g \<and> pc g \<noteq> L73 \<and> state a \<noteq> pending \<and>
     (pc g \<noteq> L74 \<longrightarrow> result a = arg g) \<and>
     (done_ch a = Closed \<longleftrightarrow> pc g = L79 \<or> pc g = L83 \<or> pc g = Returned)"

definition race_inv :: "ref \<Rightarrow> 'v iface list \<Rightarrow> ('v, 'w) config \<Rightarrow> bool" where
  "race_inv r vs c \<longleftrightarrow>
     length (goroutines c) = length vs \<and>
     (\<forall>j<length vs. arg (goroutines c ! j) = vs ! j) \<and>
     r < length (heap (shared c)) \<and>
     (if state (heap (shared c) ! r) = pending
      then done_ch (heap (shared c) ! r) = Open \<and>
           (\<forall>j<length vs. pc (goroutines c ! j) = L73 \<and> \<not> swapped (goroutines c ! j))
      else \<exists>i<length vs. winner_ok (goroutines c ! i) (heap (shared c) ! r) \<and>
             (\<forall>j<length vs. j \<noteq> i \<longrightarrow> loser_ok (goroutines c ! j)))"

lemma race_inv_init:
  assumes "r < length (heap s0)" "state (heap s0 ! r) = pending" "done_ch (heap s0 ! r) = Open"
  shows "race_inv r vs \<lparr>goroutines = map start vs, shared = s0\<rparr>"
  using assms by (simp add: race_inv_def start_def)


lemma complete_step_effect:
  assumes st: "complete_step r g s = Inr (g', s')" and r: "r < length (heap s)"
  shows "arg g' = arg g \<and> length (heap s') = length (heap s) \<and>
    (case pc g of
       L73 \<Rightarrow>
         if state (heap s ! r) = pending
         then pc g' = L74 \<and> swapped g' \<and> heap s' ! r = (heap s ! r)\<lparr>state := completed\<rparr>
         else pc g' = L83 \<and> \<not> swapped g' \<and> s' = s
     | L74 \<Rightarrow> pc g' = L75 \<and> swapped g' = swapped g \<and> heap s' ! r = (heap s ! r)\<lparr>result := arg g\<rparr>
     | L75 \<Rightarrow> pc g' = L76 \<and> swapped g' = swapped g \<and>
         (state (heap s ! r) \<noteq> pending \<longrightarrow> cell_kept False (heap s ! r) (heap s' ! r))
     | L76 \<Rightarrow> pc g' = L79 \<and> swapped g' = swapped g \<and> done_ch (heap s ! r) \<noteq> Closed \<and>
         heap s' ! r = (heap s ! r)\<lparr>done_ch := Closed\<rparr>
     | L79 \<Rightarrow> pc g' = L83 \<and> swapped g' = swapped g \<and>
         (state (heap s ! r) \<noteq> pending \<longrightarrow> cell_kept False (heap s ! r) (heap s' ! r))
     | L83 \<Rightarrow> pc g' = Returned \<and> swapped g' = swapped g \<and>
         heap s' ! r = (heap s ! r)\<lparr>completions := None\<rparr>
     | Returned \<Rightarrow> g' = g \<and> s' = s)"
proof (cases "pc g")
  case L73
  with st r show ?thesis by (auto split: if_splits)
next
  case L74
  with st r show ?thesis by auto
next
  case L75
  with st obtain a: "async_complete r s = Inr s'" and g': "g' = g\<lparr>pc := L76\<rparr>"
    by (cases "async_complete r s") auto
  have "state (heap s ! r) \<noteq> pending \<Longrightarrow> cell_kept False (heap s ! r) (heap s' ! r)"
    using frame(2)[rule_format, OF a r] by simp
  moreover have "length (heap s') = length (heap s)" using heap_length(2)[rule_format, OF a] .
  ultimately show ?thesis using L75 g' by simp
next
  case L76
  with st obtain a: "close_done r s = Inr s'" and g': "g' = g\<lparr>pc := L79\<rparr>"
    by (cases "close_done r s") auto
  from a r show ?thesis using L76 g' by (auto simp: close_done_def split: if_splits)
next
  case L79
  with st obtain a: "run_completions (elems (completions (heap s ! r))) (arg g) s = Inr s'"
    and g': "g' = g\<lparr>pc := L83\<rparr>"
    by (cases "run_completions (elems (completions (heap s ! r))) (arg g) s") auto
  have "state (heap s ! r) \<noteq> pending \<Longrightarrow> cell_kept False (heap s ! r) (heap s' ! r)"
    using frame(6)[rule_format, OF a r] by (simp add: cell_kept_def)
  moreover have "length (heap s') = length (heap s)" using heap_length(6)[rule_format, OF a] .
  ultimately show ?thesis using L79 g' by simp
next
  case L83
  with st r show ?thesis by auto
next
  case Returned
  with st show ?thesis by auto
qed

lemma race_inv_step:
  assumes inv: "race_inv r vs c" and st: "step r c c'"
  shows "race_inv r vs c'"
proof -
  from st obtain k g' s' where k: "k < length (goroutines c)"
    and nr: "pc (goroutines c ! k) \<noteq> Returned"
    and cs: "complete_step r (goroutines c ! k) (shared c) = Inr (g', s')"
    and c': "c' = \<lparr>goroutines = (goroutines c)[k := g'], shared = s'\<rparr>"
    by (auto elim: step.cases)
  let ?G = "goroutines c" and ?s = "shared c"
  let ?a = "heap ?s ! r" and ?a' = "heap s' ! r"
  from inv have len: "length ?G = length vs" and args: "\<forall>j<length vs. arg (?G ! j) = vs ! j"
    and r: "r < length (heap ?s)" by (simp_all add: race_inv_def)
  note eff = complete_step_effect[OF cs r]
  have len': "length (goroutines c') = length vs" using len by (simp add: c')
  have args': "\<forall>j<length vs. arg (goroutines c' ! j) = vs ! j"
    using args eff k len by (simp add: c' nth_list_update)
  have r': "r < length (heap (shared c'))" using eff r by (simp add: c')
  have kv: "k < length vs" using k len by simp
  show ?thesis
  proof (cases "state ?a = pending")
    case True
    with inv have op: "done_ch ?a = Open"
      and all: "\<forall>j<length vs. pc (?G ! j) = L73 \<and> \<not> swapped (?G ! j)"
      by (simp_all add: race_inv_def)
    from all kv have pk: "pc (?G ! k) = L73" by simp
    from eff pk True have g': "pc g' = L74" "swapped g'" and a': "?a' = ?a\<lparr>state := completed\<rparr>"
      by simp_all
    have w: "winner_ok g' ?a'" using g' a' op by (simp add: winner_ok_def)
    have l: "\<forall>j<length vs. j \<noteq> k \<longrightarrow> loser_ok ((?G[k := g']) ! j)"
      using all by (simp add: loser_ok_def)
    have np': "state ?a' \<noteq> pending" using a' by simp
    show ?thesis
      unfolding race_inv_def
      using len' args' r' np' w l kv k by (auto simp: c' intro!: exI[of _ k])
  next
    case False
    with inv obtain i where i: "i < length vs" and w: "winner_ok (?G ! i) ?a"
      and l: "\<forall>j<length vs. j \<noteq> i \<longrightarrow> loser_ok (?G ! j)"
      by (auto simp: race_inv_def)
    have goal: "state ?a' \<noteq> pending \<and> winner_ok ((?G[k := g']) ! i) ?a' \<and>
                (\<forall>j<length vs. j \<noteq> i \<longrightarrow> loser_ok ((?G[k := g']) ! j))"
    proof (cases "k = i")
      case ki: True
      have w': "winner_ok g' ?a'"
      proof (cases "pc (?G ! k)")
        case L73
        with w ki show ?thesis by (simp add: winner_ok_def)
      next
        case L74
        with w ki eff show ?thesis by (simp add: winner_ok_def)
      next
        case L75
        with w ki eff False show ?thesis by (simp add: winner_ok_def cell_kept_def)
      next
        case L76
        with w ki eff show ?thesis by (simp add: winner_ok_def)
      next
        case L79
        with w ki eff False show ?thesis by (simp add: winner_ok_def cell_kept_def)
      next
        case L83
        with w ki eff show ?thesis by (simp add: winner_ok_def)
      next
        case Returned
        with nr show ?thesis by simp
      qed
      then show ?thesis using l ki k len by (simp add: winner_ok_def)
    next
      case ki: False
      from l kv ki have lk: "loser_ok (?G ! k)" by simp
      from lk nr have "pc (?G ! k) = L73 \<or> pc (?G ! k) = L83" by (auto simp: loser_ok_def)
      then have g': "loser_ok g'" and a': "state ?a' = state ?a \<and> result ?a' = result ?a \<and>
            done_ch ?a' = done_ch ?a"
        using eff False lk by (auto simp: loser_ok_def)
      have "winner_ok (?G ! i) ?a'" using w a' by (simp add: winner_ok_def)
      then show ?thesis using ki l g' k a' False by (auto simp: nth_list_update winner_ok_def)
    qed
    show ?thesis
      unfolding race_inv_def
      using len' args' r' goal i by (auto simp: c')
  qed
qed

lemma race_inv_reach:
  assumes "rtranclp (step r) c c'" and "race_inv r vs c"
  shows "race_inv r vs c'"
  using assms by (induction rule: rtranclp_induct) (auto intro: race_inv_step)


text \<open>
  \<open>async_complete_passing v r\<close> is the completion of the signal of \<open>r\<close> in which every
  continuation is handed \<open>v\<close>, instead of reading the payload when it runs. The two
  agree when the payload is \<open>v\<close> and the continuations were registered with \<^verbatim>\<open>accept\<close>
  on \<open>r\<close>.
\<close>

fun thunk_completion :: "('v, 'w) thunk \<Rightarrow> ('v, 'w) completion" where
  "thunk_completion (Accept_closure q c) = c"

fun registered_on :: "ref \<Rightarrow> ('v, 'w) thunk \<Rightarrow> bool" where
  "registered_on r (Accept_closure q c) = (q = r)"

definition async_complete_passing :: "'v iface \<Rightarrow> ref \<Rightarrow> ('v, 'w) st \<Rightarrow> panic + ('v, 'w) st" where
  "async_complete_passing v r s =
     (if a_state (async (heap s ! r)) = pending then
        (case run_completions (map thunk_completion (a_completions (async (heap s ! r)))) v
                (upd r (\<lambda>a. a\<lparr>async := (async a)\<lparr>a_done := Closed\<rparr>\<rparr>)
                  (upd r (\<lambda>a. a\<lparr>async := (async a)\<lparr>a_state := completed\<rparr>\<rparr>) s)) of
           Inl p \<Rightarrow> Inl p
         | Inr s' \<Rightarrow> Inr (upd r (\<lambda>a. a\<lparr>async := (async a)\<lparr>a_completions := []\<rparr>\<rparr>) s'))
      else Inr s)"

lemma run_thunks_passing:
  assumes "list_all (registered_on r) ts" and "r < length (heap s)"
    and "state (heap s ! r) \<noteq> pending" and "result (heap s ! r) = v"
  shows "run_thunks ts s = run_completions (map thunk_completion ts) v s"
  using assms
proof (induction ts arbitrary: s)
  case Nil
  then show ?case by simp
next
  case (Cons t ts)
  obtain q c where t: "t = Accept_closure q c" by (cases t)
  with Cons.prems have q: "q = r" by simp
  have rt: "run_thunk t s = invoke c v s" using Cons.prems by (simp add: t q)
  have tc: "thunk_completion t = c" by (simp add: t)
  show ?case
  proof (cases "invoke c v s")
    case (Inl p)
    then show ?thesis by (simp add: rt tc)
  next
    case (Inr s1)
    have k: "cell_kept True (heap s ! r) (heap s1 ! r)"
      by (rule frame(5)[rule_format, OF Inr Cons.prems(2,3)])
    have l: "length (heap s1) = length (heap s)" by (rule heap_length(5)[rule_format, OF Inr])
    have "run_thunks ts s1 = run_completions (map thunk_completion ts) v s1"
      using Cons.prems k l by (intro Cons.IH) (simp_all add: cell_kept_def)
    then show ?thesis by (simp add: rt Inr tc)
  qed
qed

lemma async_complete_is_passing:
  assumes "list_all (registered_on r) (a_completions (async (heap s ! r)))" and "r < length (heap s)"
    and "state (heap s ! r) \<noteq> pending" and "result (heap s ! r) = v"
  shows "async_complete r s = async_complete_passing v r s"
proof (cases "a_state (async (heap s ! r)) = pending")
  case False
  then show ?thesis by (simp add: async_complete_again async_complete_passing_def)
next
  case True
  let ?s0 = "upd r (\<lambda>a. a\<lparr>async := (async a)\<lparr>a_done := Closed\<rparr>\<rparr>)
               (upd r (\<lambda>a. a\<lparr>async := (async a)\<lparr>a_state := completed\<rparr>\<rparr>) s)"
  have r0: "r < length (heap ?s0)" using assms(2) by simp
  have np0: "state (heap ?s0 ! r) \<noteq> pending" using assms(2,3) by simp
  have v0: "result (heap ?s0 ! r) = v" using assms(2,4) by simp
  have "run_thunks (a_completions (async (heap s ! r))) ?s0
        = run_completions (map thunk_completion (a_completions (async (heap s ! r)))) v ?s0"
    by (rule run_thunks_passing[OF assms(1) r0 np0 v0])
  then show ?thesis using True by (simp add: async_complete_first async_complete_passing_def)
qed

section \<open>The claims\<close>

subsection \<open>Construction of a completed result\<close>

text \<open>
  C7: for every value \<open>v\<close> and every state, \<^verbatim>\<open>asCompletedAsyncResult(v)\<close> is
  \<^verbatim>\<open>newAsyncResult()\<close> followed by \<^verbatim>\<open>complete(v)\<close>; it returns, the object it returns is
  the completed object with payload \<open>v\<close>, and \<^verbatim>\<open>get()\<close> on it returns \<open>v\<close> and does not
  block.
\<close>

theorem asCompletedAsyncResult_is_new_then_complete:
  "asCompletedAsyncResult v s =
     (case newAsyncResult s of
        (a, s1) \<Rightarrow> (case complete a v s1 of Inl p \<Rightarrow> Inl p | Inr s2 \<Rightarrow> Inr (a, s2)))
   \<and> asCompletedAsyncResult v s = Inr (length (heap s), s\<lparr>heap := heap s @ [completed_cell v]\<rparr>)
   \<and> completed_with (length (heap s)) v (s\<lparr>heap := heap s @ [completed_cell v]\<rparr>)
   \<and> get (length (heap s)) (s\<lparr>heap := heap s @ [completed_cell v]\<rparr>) = Inr (Received v)"
proof -
  have "asCompletedAsyncResult v s =
     (case newAsyncResult s of
        (a, s1) \<Rightarrow> (case complete a v s1 of Inl p \<Rightarrow> Inl p | Inr s2 \<Rightarrow> Inr (a, s2)))"
    by (simp add: asCompletedAsyncResult_def)
  then show ?thesis
    by (simp add: asCompletedAsyncResult_eq get_def completed_cell_def completed_with_def)
qed

subsection \<open>The first completion wins\<close>

text \<open>
  A listener that counts its calls in the callers' state, and a pending object on which
  it has been registered with \<^verbatim>\<open>accept\<close>.
\<close>

definition count_calls :: "nat iface \<Rightarrow> nat \<Rightarrow> panic + nat" where
  "count_calls v w = Inr (Suc w)"

definition one_listener :: "(nat, nat) st" where
  "one_listener =
     \<lparr>heap = [\<lparr>state = pending, completions = Some [], done_ch = Open, result = None,
               async = \<lparr>a_state = pending,
                        a_completions = [Accept_closure 0 (Consumer count_calls)],
                        a_done = Open\<rparr>\<rparr>],
      world = 0\<rparr>"

text \<open>
  C1: when \<^verbatim>\<open>complete(v1)\<close> is the first completion of an \<^verbatim>\<open>asyncResult\<close> and has
  returned, \<^verbatim>\<open>complete(v2)\<close> returns too and changes nothing at all: the payload stays
  \<open>v1\<close>, \<^verbatim>\<open>get()\<close> returns \<open>v1\<close>, and the callers' state and every other object are as
  the first call left them, so no continuation has run again.
\<close>

theorem complete_twice_first_wins:
  assumes "state (heap s ! r) = pending" and "complete r v1 s = Inr s1"
  shows "\<exists>s2. complete r v2 s1 = Inr s2 \<and> s2 = s1 \<and>
              result (heap s2 ! r) = v1 \<and> get r s2 = Inr (Received v1)"
proof -
  have r: "r < length (heap s)"
    using assms(2) by (cases "r < length (heap s)") (simp_all add: complete_nil)
  from complete_outer_post[OF r assms] have "result (heap s1 ! r) = v1" "get r s1 = Inr (Received v1)"
    by (simp_all add: get_def)
  with complete_idem[OF assms(2), of v2] show ?thesis by simp
qed

lemma one_listener_accept:
  "accept 0 (Consumer count_calls) (snd (newAsyncResult \<lparr>heap = [], world = 0\<rparr>)) = Inr one_listener"
  by (simp add: accept_def async_accept_def newAsyncResult_def newAsync_def one_listener_def upd_def
      pending_def completed_def)

lemma one_listener_complete:
  "complete 0 (Some 1) one_listener = Inr \<lparr>heap = [completed_cell (Some 1)], world = 1\<rparr>"
  by (simp add: complete.simps async_complete.simps one_listener_def upd_def close_done_def
      elems_def count_calls_def completed_cell_def)

theorem complete_twice_first_wins_witness:
  "state (heap one_listener ! 0) = pending \<and>
   complete 0 (Some 1) one_listener = Inr \<lparr>heap = [completed_cell (Some 1)], world = 1\<rparr> \<and>
   complete 0 (Some 2) \<lparr>heap = [completed_cell (Some (1::nat))], world = 1::nat\<rparr>
     = Inr \<lparr>heap = [completed_cell (Some 1)], world = 1\<rparr> \<and>
   get 0 \<lparr>heap = [completed_cell (Some (1::nat))], world = 1::nat\<rparr> = Inr (Received (Some 1))"
proof -
  have p: "state (heap one_listener ! 0) = pending" by (simp add: one_listener_def)
  from complete_twice_first_wins[OF p one_listener_complete, of "Some 2"] p one_listener_complete
  show ?thesis by simp
qed

subsection \<open>A further completion of a completed result\<close>

text \<open>
  \<open>before_clearing\<close> is a new \<^verbatim>\<open>asyncResult\<close> on which \<^verbatim>\<open>complete(1)\<close> has run lines 73-81
  and not yet line 83: the state is completed, the payload is set, \<^verbatim>\<open>done\<close> is closed,
  and \<^verbatim>\<open>completions\<close> is still the empty slice of \<^verbatim>\<open>newAsyncResult\<close>. A call that loses
  the race against this one, or a completion that a callback of this one makes, finds the
  object so.
\<close>

definition before_clearing :: "(nat, unit) st" where
  "before_clearing =
     \<lparr>heap = [\<lparr>state = completed, completions = Some [], done_ch = Closed, result = Some 1,
               async = \<lparr>a_state = completed, a_completions = [], a_done = Closed\<rparr>\<rparr>],
      world = ()\<rparr>"

lemma before_clearing_schedule:
  "run_schedule [0, 0, 0, 0, 0] 0
     \<lparr>goroutines = [start (Some 1), start (Some 2)],
      shared = snd (newAsyncResult \<lparr>heap = [], world = ()\<rparr>)\<rparr>
   = Some \<lparr>goroutines = [\<lparr>pc = L83, arg = Some 1, swapped = True\<rparr>, start (Some 2)],
           shared = before_clearing\<rparr>"
  by (simp add: before_clearing_def start_def async_complete.simps newAsyncResult_def
      newAsync_def upd_def close_done_def elems_def)

text \<open>
  C5 does not hold as stated: line 83 assigns nil to \<^verbatim>\<open>completions\<close> in every call, also
  in one that finds the state completed. Two goroutines call \<^verbatim>\<open>complete(1)\<close> and
  \<^verbatim>\<open>complete(2)\<close> on a new \<^verbatim>\<open>asyncResult\<close>; when the first has run up to line 83 the shared
  state is \<open>before_clearing\<close>: the state is completed, \<^verbatim>\<open>get()\<close> returns 1, and
  \<^verbatim>\<open>completions\<close> is the empty slice. \<^verbatim>\<open>complete(2)\<close> on it changes \<^verbatim>\<open>completions\<close> to nil.
\<close>

theorem complete_on_completed_counterexample:
  "rtranclp (step 0)
     \<lparr>goroutines = [start (Some 1), start (Some 2)],
      shared = snd (newAsyncResult \<lparr>heap = [], world = ()\<rparr>)\<rparr>
     \<lparr>goroutines = [\<lparr>pc = L83, arg = Some 1, swapped = True\<rparr>, start (Some 2)],
      shared = before_clearing\<rparr> \<and>
   state (heap before_clearing ! 0) = completed \<and>
   get 0 before_clearing = Inr (Received (Some 1)) \<and>
   completions (heap before_clearing ! 0) = Some [] \<and>
   complete 0 (Some 2) before_clearing =
     Inr \<lparr>heap = [\<lparr>state = completed, completions = None, done_ch = Closed, result = Some 1,
               async = \<lparr>a_state = completed, a_completions = [], a_done = Closed\<rparr>\<rparr>],
      world = ()\<rparr>"
  using run_schedule_steps[OF before_clearing_schedule]
  by (simp add: before_clearing_def complete.simps get_def upd_def)

text \<open>
  C5, amended: on an \<^verbatim>\<open>asyncResult\<close> whose state is completed, \<^verbatim>\<open>complete(v)\<close> returns
  and leaves the payload, the state, the \<^verbatim>\<open>done\<close> channel and the embedded signal of the
  object, every other object and the callers' state as they were; \<^verbatim>\<open>completions\<close> is nil
  afterwards. Where \<^verbatim>\<open>completions\<close> was nil already, as it is once the completing call
  has returned, the call changes nothing.
\<close>

theorem complete_on_completed:
  assumes "r < length (heap s)" and "state (heap s ! r) = completed"
  shows "complete r v s = Inr (s\<lparr>heap := (heap s)[r := (heap s ! r)\<lparr>completions := None\<rparr>]\<rparr>) \<and>
         (completions (heap s ! r) = None \<longrightarrow> complete r v s = Inr s)"
proof -
  have np: "state (heap s ! r) \<noteq> pending" using assms(2) by simp
  have eq: "complete r v s = Inr (upd r (\<lambda>a. a\<lparr>completions := None\<rparr>) s)"
    by (rule complete_loser[OF assms(1) np])
  moreover have "completions (heap s ! r) = None \<Longrightarrow> upd r (\<lambda>a. a\<lparr>completions := None\<rparr>) s = s"
    by (intro upd_same) simp
  ultimately show ?thesis by (simp add: upd_def)
qed

theorem complete_on_completed_witness:
  "0 < length (heap before_clearing) \<and> state (heap before_clearing ! 0) = completed \<and>
   complete 0 (Some 2) before_clearing =
     Inr (before_clearing\<lparr>heap := (heap before_clearing)[0 := (heap before_clearing ! 0)\<lparr>completions := None\<rparr>]\<rparr>) \<and>
   completions (heap \<lparr>heap = [completed_cell (Some (1::nat))], world = ()\<rparr> ! 0) = None \<and>
   complete 0 (Some 2) \<lparr>heap = [completed_cell (Some (1::nat))], world = ()\<rparr>
     = Inr \<lparr>heap = [completed_cell (Some 1)], world = ()\<rparr>"
proof -
  have a: "0 < length (heap before_clearing)" "state (heap before_clearing ! 0) = completed"
    by (simp_all add: before_clearing_def)
  have b: "0 < length (heap \<lparr>heap = [completed_cell (Some (1::nat))], world = ()\<rparr>)"
    "state (heap \<lparr>heap = [completed_cell (Some (1::nat))], world = ()\<rparr> ! 0) = completed"
    "completions (heap \<lparr>heap = [completed_cell (Some (1::nat))], world = ()\<rparr> ! 0) = None"
    by (simp_all add: completed_cell_def)
  from complete_on_completed[OF a, of "Some 2"] complete_on_completed[OF b(1,2), of "Some 2"] a b
  show ?thesis by simp
qed

subsection \<open>Chaining onto a completed result\<close>

definition succ_transform :: "nat iface \<Rightarrow> nat \<Rightarrow> panic + (nat iface \<times> nat)" where
  "succ_transform x w = Inr (map_option Suc x, Suc w)"

text \<open>
  C6: when the receiver has been completed with \<open>x\<close>, \<^verbatim>\<open>applyThen(f)\<close> calls \<open>f\<close> on
  \<open>x\<close> before it returns: the state it returns is the one \<open>f\<close> left, once, on the state
  of the call, and the new \<^verbatim>\<open>asyncResult\<close> it returns is completed with the output of
  \<open>f\<close>, so that \<^verbatim>\<open>get()\<close> on it returns that output. A panic of \<open>f\<close> is the panic
  of \<^verbatim>\<open>applyThen\<close>.
\<close>

theorem applyThen_on_completed:
  assumes "completed_with r x s"
  shows "applyThen r f s =
           (case f x (world s) of
              Inl p \<Rightarrow> Inl p
            | Inr (y, w) \<Rightarrow> Inr (length (heap s), \<lparr>heap = heap s @ [completed_cell y], world = w\<rparr>))
         \<and> (\<forall>y w. f x (world s) = Inr (y, w) \<longrightarrow>
              (\<exists>n s'. applyThen r f s = Inr (n, s') \<and> world s' = w \<and>
                       completed_with n y s' \<and> get n s' = Inr (Received y)))"
proof -
  have eq: "applyThen r f s =
           (case f x (world s) of
              Inl p \<Rightarrow> Inl p
            | Inr (y, w) \<Rightarrow> Inr (length (heap s), \<lparr>heap = heap s @ [completed_cell y], world = w\<rparr>))"
    by (rule applyThen_completed_eq[OF assms])
  have "completed_with (length (heap s)) y \<lparr>heap = heap s @ [completed_cell y], world = w\<rparr>
        \<and> get (length (heap s)) \<lparr>heap = heap s @ [completed_cell y], world = w\<rparr> = Inr (Received y)" for y w
    by (simp add: completed_with_def completed_cell_def get_def)
  with eq show ?thesis by simp
qed

theorem applyThen_on_completed_witness:
  "completed_with 0 (Some 1) \<lparr>heap = [completed_cell (Some (1::nat))], world = 0::nat\<rparr> \<and>
   applyThen 0 succ_transform \<lparr>heap = [completed_cell (Some (1::nat))], world = 0::nat\<rparr>
     = Inr (1, \<lparr>heap = [completed_cell (Some 1), completed_cell (Some 2)], world = 1\<rparr>) \<and>
   get 1 \<lparr>heap = [completed_cell (Some (1::nat)), completed_cell (Some 2)], world = 1::nat\<rparr>
     = Inr (Received (Some 2))"
proof -
  have c: "completed_with 0 (Some 1) \<lparr>heap = [completed_cell (Some (1::nat))], world = 0::nat\<rparr>"
    by (simp add: completed_with_def completed_cell_def)
  from applyThen_on_completed[OF c, of succ_transform] c
  show ?thesis by (simp add: succ_transform_def get_def completed_cell_def)
qed

subsection \<open>Chaining onto a pending result\<close>

text \<open>The operations keep a state well formed, starting from the empty store.\<close>

lemma completion_ok_mono: "completion_ok n c \<Longrightarrow> n \<le> n' \<Longrightarrow> completion_ok n' c"
  by (cases c) auto

lemma thunk_ok_mono: "thunk_ok n t \<Longrightarrow> n \<le> n' \<Longrightarrow> thunk_ok n' t"
  by (cases t) (auto intro: completion_ok_mono)

lemma cell_ok_mono: "cell_ok n a \<Longrightarrow> n \<le> n' \<Longrightarrow> cell_ok n' a"
  by (auto simp: cell_ok_def list_all_iff intro: thunk_ok_mono completion_ok_mono)

lemma bounded_mono: "bounded n s \<Longrightarrow> n \<le> n' \<Longrightarrow> bounded n' s"
  by (auto simp: bounded_def list_all_iff intro: cell_ok_mono)

lemma well_formed_empty: "well_formed \<lparr>heap = [], world = w\<rparr>"
  by (simp add: well_formed_def bounded_def)

lemma well_formed_newAsyncResult: "well_formed s \<Longrightarrow> well_formed (snd (newAsyncResult s))"
  using bounded_mono[of "length (heap s)" s "Suc (length (heap s))"]
  by (simp add: well_formed_def newAsyncResult_eq bounded_def cell_ok_def fresh_def newAsync_def elems_def)

lemma well_formed_complete: "complete r v s = Inr s' \<Longrightarrow> well_formed s \<Longrightarrow> well_formed s'"
  using bounded_preserved(1)[rule_format, of r v s s' "length (heap s)"]
    heap_length(1)[rule_format, of r v s s']
  by (simp add: well_formed_def)

lemma well_formed_applyThen:
  assumes "applyThen r f s = Inr (n, s')" and "well_formed s"
  shows "well_formed s'"
proof -
  let ?n = "length (heap s)"
  let ?s1 = "s\<lparr>heap := heap s @ [fresh]\<rparr>"
  let ?th = "Accept_closure r (ApplyThen_closure f ?n)"
  from assms(1) have acc: "accept r (ApplyThen_closure f ?n) ?s1 = Inr s'"
    by (simp add: applyThen_def newAsyncResult_eq split: sum.splits if_splits)
  then have r: "r < Suc ?n" by (simp add: accept_def split: if_splits)
  have wf1: "bounded (Suc ?n) ?s1"
    using well_formed_newAsyncResult[OF assms(2)] by (simp add: well_formed_def newAsyncResult_eq)
  show ?thesis
  proof (cases "a_state (async (heap ?s1 ! r)) = completed")
    case True
    with acc r have "run_thunk ?th ?s1 = Inr s'" by (simp add: accept_def async_accept_def)
    from bounded_preserved(4)[rule_format, OF this wf1] heap_length(4)[rule_format, OF this]
    show ?thesis by (simp add: well_formed_def)
  next
    case False
    with acc r have s': "s' = upd r (add_thunk ?th) ?s1"
      by (auto simp: accept_def async_accept_def add_thunk_def[abs_def])
    have "cell_ok (Suc ?n) (heap ?s1 ! r) \<Longrightarrow> cell_ok (Suc ?n) (add_thunk ?th (heap ?s1 ! r))"
      using r by (simp add: cell_ok_def add_thunk_def)
    with wf1 have "bounded (Suc ?n) (upd r (add_thunk ?th) ?s1)" by (rule bounded_upd)
    then show ?thesis by (simp add: well_formed_def s')
  qed
qed

text \<open>
  C2: let the receiver \<open>r\<close> be pending in a well-formed state, and let completing it
  with \<open>x\<close> return the state \<open>t\<close>. Then \<^verbatim>\<open>applyThen(f)\<close> returns a new pending
  \<^verbatim>\<open>asyncResult\<close> and only registers the link: the callers' state is the same, so \<open>f\<close>
  has not been called, and \<^verbatim>\<open>get()\<close> on the new object blocks. Completing \<open>r\<close> with
  \<open>x\<close> afterwards does what it did without the link and calls \<open>f\<close> on \<open>x\<close>, once, in
  the state that the earlier continuations left: the final state is the one \<open>f\<close> returned
  and the new object is completed with the output of \<open>f\<close>. This holds for every \<open>f\<close>
  and every type of callers' state, also for an \<open>f\<close> that counts its calls there.
\<close>

theorem applyThen_chain:
  assumes "well_formed s" and "pending_source r s" and "complete r x s = Inr t"
  shows "\<exists>n s1. applyThen r f s = Inr (n, s1) \<and>
           n = length (heap s) \<and>
           s1 = ext r (Accept_closure r (ApplyThen_closure f n)) fresh s \<and>
           world s1 = world s \<and> pending_source n s1 \<and> get n s1 = Inr Blocked \<and>
           complete r x s1 =
             (case f x (world t) of
                Inl p \<Rightarrow> Inl p
              | Inr (y, w) \<Rightarrow> Inr \<lparr>heap = heap t @ [completed_cell y], world = w\<rparr>) \<and>
           (\<forall>y w. f x (world t) = Inr (y, w) \<longrightarrow>
              (\<exists>t'. complete r x s1 = Inr t' \<and> world t' = w \<and>
                    completed_with n y t' \<and> get n t' = Inr (Received y)))"
proof -
  let ?n = "length (heap s)"
  let ?s1 = "ext r (Accept_closure r (ApplyThen_closure f ?n)) fresh s"
  from assms(2) have r: "r < ?n" and ip: "a_state (async (heap s ! r)) \<noteq> completed"
    by (simp_all add: pending_source_def)
  have reg: "applyThen r f s = Inr (?n, ?s1)" by (rule applyThen_pending_eq[OF r ip])
  have new: "pending_source ?n ?s1" "get ?n ?s1 = Inr Blocked"
    by (simp_all add: pending_source_def get_def ext_def nth_append fresh_def newAsync_def elems_def)
  have run: "complete r x ?s1 =
       (case f x (world t) of
          Inl p \<Rightarrow> Inl p
        | Inr (y, w) \<Rightarrow> Inr \<lparr>heap = heap t @ [completed_cell y], world = w\<rparr>)"
    by (rule chain_complete[OF assms])
  have lt: "length (heap t) = ?n" using heap_length(1)[rule_format, OF assms(3)] .
  have fin: "completed_with ?n y \<lparr>heap = heap t @ [completed_cell y], world = w\<rparr> \<and>
             get ?n \<lparr>heap = heap t @ [completed_cell y], world = w\<rparr> = Inr (Received y)" for y w
    using lt by (simp add: completed_with_def get_def completed_cell_def nth_append)
  show ?thesis using reg new run fin by simp
qed

lemma one_listener_wf: "well_formed one_listener"
  by (simp add: well_formed_def bounded_def cell_ok_def one_listener_def elems_def)

lemma one_listener_pending: "pending_source 0 one_listener"
  by (simp add: pending_source_def one_listener_def elems_def)

theorem applyThen_chain_witness:
  "well_formed one_listener \<and> pending_source 0 one_listener \<and>
   complete 0 (Some 1) one_listener = Inr \<lparr>heap = [completed_cell (Some 1)], world = 1\<rparr> \<and>
   applyThen 0 succ_transform one_listener
     = Inr (1, ext 0 (Accept_closure 0 (ApplyThen_closure succ_transform 1)) fresh one_listener) \<and>
   world (ext 0 (Accept_closure 0 (ApplyThen_closure succ_transform 1)) fresh one_listener) = 0 \<and>
   complete 0 (Some 1) (ext 0 (Accept_closure 0 (ApplyThen_closure succ_transform 1)) fresh one_listener)
     = Inr \<lparr>heap = [completed_cell (Some 1), completed_cell (Some 2)], world = 2\<rparr> \<and>
   get 1 \<lparr>heap = [completed_cell (Some (1::nat)), completed_cell (Some 2)], world = 2::nat\<rparr>
     = Inr (Received (Some 2))"
proof -
  have l: "length (heap one_listener) = 1" "world one_listener = 0"
    by (simp_all add: one_listener_def)
  from applyThen_chain[OF one_listener_wf one_listener_pending one_listener_complete, of succ_transform]
    one_listener_wf one_listener_pending one_listener_complete l
  show ?thesis by (simp add: succ_transform_def get_def completed_cell_def)
qed

section \<open>The manual polling policy\<close>

text \<open>
  Modelled from the spec: the type \<^verbatim>\<open>FetchResponse\<close> is not declared in the sources. By
  the spec it is a record of which the policy reads \<^verbatim>\<open>IsFetched()\<close> and \<^verbatim>\<open>Body\<close>.
\<close>

record FetchResponse =
  IsFetched :: bool
  Body :: string

text \<open>
  The dynamic values that the policy meets in an \<^verbatim>\<open>interface{}\<close>: a \<^verbatim>\<open>FetchResponse\<close>,
  a string (the configuration that the policy returns), or a value of some other type.
\<close>

datatype 'a payload = FetchResponseV FetchResponse | StringV string | OtherV 'a

text \<open>
  Modelled from the spec: the store is not declared in the sources. By the spec it
  exposes \<^verbatim>\<open>Get()\<close>, which returns the cached value, and \<^verbatim>\<open>Set(value)\<close>, which replaces
  it. An implementation is given by what the two do on the callers' state \<open>'w\<close>.
\<close>

record 'w ConfigStore =
  Get :: "'w \<Rightarrow> string"
  Set :: "string \<Rightarrow> 'w \<Rightarrow> 'w"

text \<open>
  \<^verbatim>\<open>ManualPollingPolicy\<close> (lines 4-13 of the policy's file) holds the fetcher and the store.
  The fetcher is an interface; its \<^verbatim>\<open>GetConfigurationAsync()\<close> returns a deferred result.
\<close>

record ('a, 'w) ManualPollingPolicy =
  Fetcher :: "('a payload, 'w) st \<Rightarrow> panic + (ref \<times> ('a payload, 'w) st)"
  Store :: "'w ConfigStore"

definition NewManualPollingPolicy ::
  "(('a payload, 'w) st \<Rightarrow> panic + (ref \<times> ('a payload, 'w) st)) \<Rightarrow> 'w ConfigStore
     \<Rightarrow> ('a, 'w) ManualPollingPolicy" where
  "NewManualPollingPolicy fetcher store = \<lparr>Fetcher = fetcher, Store = store\<rparr>"

text \<open>
  \<open>transform\<close> is the function literal of lines 17-31: the type assertion, the read of
  the cache, and the three ways out. \<open>GetConfigurationAsync\<close> (lines 16-32) asks the
  fetcher and chains the transform with \<^verbatim>\<open>ApplyThen\<close>, the \<^verbatim>\<open>applyThen\<close> of
  \<^verbatim>\<open>async_result.go\<close>.
\<close>

definition transform :: "('a, 'w) ManualPollingPolicy \<Rightarrow> 'a payload iface \<Rightarrow> 'w
    \<Rightarrow> panic + ('a payload iface \<times> 'w)" where
  "transform policy res w =
     (case res of
        Some (FetchResponseV response) \<Rightarrow>
          (let cached = Get (Store policy) w in
           if IsFetched response then
             (let fetched = Body response in
              Inr (Some (StringV fetched),
                   if cached \<noteq> fetched then Set (Store policy) fetched w else w))
           else Inr (Some (StringV cached), w))
      | _ \<Rightarrow> Inl TypeAssertion)"

definition GetConfigurationAsync :: "('a, 'w) ManualPollingPolicy \<Rightarrow> ('a payload, 'w) st
    \<Rightarrow> panic + (ref \<times> ('a payload, 'w) st)" where
  "GetConfigurationAsync policy s =
     (case Fetcher policy s of
        Inl p \<Rightarrow> Inl p
      | Inr (a, s1) \<Rightarrow> applyThen a (transform policy) s1)"

lemma transform_FetchResponse:
  "transform policy (Some (FetchResponseV resp)) w =
     Inr (Some (StringV (if IsFetched resp then Body resp else Get (Store policy) w)),
          if IsFetched resp \<and> Get (Store policy) w \<noteq> Body resp
          then Set (Store policy) (Body resp) w else w)"
  by (simp add: transform_def Let_def)

lemma transform_other:
  "(\<forall>resp. x \<noteq> Some (FetchResponseV resp)) \<Longrightarrow> transform policy x w = Inl TypeAssertion"
  by (auto simp: transform_def split: option.splits payload.splits)


text \<open>
  \<open>serves policy resp w0 n t\<close> says, in the words of the claim, what the deferred result
  \<open>n\<close> and the store are in \<open>t\<close> when the response \<open>resp\<close> arrived with the store in
  \<open>w0\<close>: the three cases of a fetched body that differs from the cache, a fetched body
  equal to it, and a failed fetch.
\<close>

definition serves :: "('a, 'w) ManualPollingPolicy \<Rightarrow> FetchResponse \<Rightarrow> 'w \<Rightarrow> ref
    \<Rightarrow> ('a payload, 'w) st \<Rightarrow> bool" where
  "serves policy resp w0 n t \<longleftrightarrow>
     (IsFetched resp \<and> Body resp \<noteq> Get (Store policy) w0 \<longrightarrow>
        completed_with n (Some (StringV (Body resp))) t \<and>
        world t = Set (Store policy) (Body resp) w0) \<and>
     (IsFetched resp \<and> Body resp = Get (Store policy) w0 \<longrightarrow>
        completed_with n (Some (StringV (Body resp))) t \<and> world t = w0) \<and>
     (\<not> IsFetched resp \<longrightarrow>
        completed_with n (Some (StringV (Get (Store policy) w0))) t \<and> world t = w0)"

lemma GetConfigurationAsync_completed:
  assumes "Fetcher policy s = Inr (fr, s1)" and "completed_with fr x s1"
  shows "GetConfigurationAsync policy s =
     (case transform policy x (world s1) of
        Inl p \<Rightarrow> Inl p
      | Inr (y, w) \<Rightarrow> Inr (length (heap s1), \<lparr>heap = heap s1 @ [completed_cell y], world = w\<rparr>))"
  by (simp add: GetConfigurationAsync_def assms(1) applyThen_completed_eq[OF assms(2)])

lemma GetConfigurationAsync_pending:
  assumes "Fetcher policy s = Inr (fr, s1)" and "pending_source fr s1"
  shows "GetConfigurationAsync policy s =
     Inr (length (heap s1),
          ext fr (Accept_closure fr (ApplyThen_closure (transform policy) (length (heap s1)))) fresh s1)"
  using assms
  by (simp add: GetConfigurationAsync_def applyThen_pending_eq pending_source_def)

text \<open>
  C4: let the fetcher return the deferred result \<open>fr\<close>. If \<open>fr\<close> is already completed
  with the response, \<^verbatim>\<open>GetConfigurationAsync\<close> returns a completed result; if \<open>fr\<close> is
  pending, it returns a pending one, leaves the store alone, and the result is completed
  when \<open>fr\<close> is. In both cases the result carries the body and the store is set to it
  when the fetch succeeded with a body other than the cached value; it carries the body
  and the store is the same, for every implementation of \<^verbatim>\<open>Set\<close>, when the body equals
  the cached value; it carries the cached value and the store is the same when the fetch
  failed.
\<close>

theorem GetConfigurationAsync_serves:
  assumes "Fetcher policy s = Inr (fr, s1)"
  shows "(completed_with fr (Some (FetchResponseV resp)) s1 \<longrightarrow>
            (\<exists>n s2. GetConfigurationAsync policy s = Inr (n, s2) \<and>
                    serves policy resp (world s1) n s2)) \<and>
         (well_formed s1 \<and> pending_source fr s1 \<and>
          complete fr (Some (FetchResponseV resp)) s1 = Inr t \<longrightarrow>
            (\<exists>n s2 t'. GetConfigurationAsync policy s = Inr (n, s2) \<and>
                    world s2 = world s1 \<and> get n s2 = Inr Blocked \<and>
                    complete fr (Some (FetchResponseV resp)) s2 = Inr t' \<and>
                    serves policy resp (world t) n t'))"
proof (intro conjI impI)
  assume c: "completed_with fr (Some (FetchResponseV resp)) s1"
  show "\<exists>n s2. GetConfigurationAsync policy s = Inr (n, s2) \<and> serves policy resp (world s1) n s2"
    by (simp add: GetConfigurationAsync_completed[OF assms c] transform_FetchResponse serves_def
        completed_with_def completed_cell_def)
next
  assume h: "well_formed s1 \<and> pending_source fr s1 \<and>
          complete fr (Some (FetchResponseV resp)) s1 = Inr t"
  then have wf: "well_formed s1" and ps: "pending_source fr s1"
    and t: "complete fr (Some (FetchResponseV resp)) s1 = Inr t" by simp_all
  let ?n = "length (heap s1)"
  let ?s2 = "ext fr (Accept_closure fr (ApplyThen_closure (transform policy) ?n)) fresh s1"
  have lt: "length (heap t) = ?n" using heap_length(1)[rule_format, OF t] .
  have g: "GetConfigurationAsync policy s = Inr (?n, ?s2)"
    by (rule GetConfigurationAsync_pending[OF assms ps])
  have b: "get ?n ?s2 = Inr Blocked"
    by (simp add: get_def ext_def nth_append fresh_def)
  have run: "complete fr (Some (FetchResponseV resp)) ?s2 =
      (case transform policy (Some (FetchResponseV resp)) (world t) of
         Inl p \<Rightarrow> Inl p
       | Inr (y, w) \<Rightarrow> Inr \<lparr>heap = heap t @ [completed_cell y], world = w\<rparr>)"
    by (rule chain_complete[OF wf ps t])
  show "\<exists>n s2 t'. GetConfigurationAsync policy s = Inr (n, s2) \<and>
                    world s2 = world s1 \<and> get n s2 = Inr Blocked \<and>
                    complete fr (Some (FetchResponseV resp)) s2 = Inr t' \<and>
                    serves policy resp (world t) n t'"
    using lt
    by (simp add: g b run transform_FetchResponse serves_def completed_with_def completed_cell_def
        nth_append)
qed

text \<open>
  C9: the transform panics at the type assertion exactly when the payload is not a
  \<^verbatim>\<open>FetchResponse\<close> (nil included). With such a payload \<^verbatim>\<open>GetConfigurationAsync\<close>
  itself panics when the fetcher's result is already completed; when it is pending, the
  completion of the fetcher's result panics, and the chained result stays pending.
\<close>

theorem transform_type_assertion:
  "(transform policy x w = Inl TypeAssertion \<longleftrightarrow> (\<forall>resp. x \<noteq> Some (FetchResponseV resp))) \<and>
   ((\<forall>resp. x \<noteq> Some (FetchResponseV resp)) \<longrightarrow> Fetcher policy s = Inr (fr, s1) \<longrightarrow>
      (completed_with fr x s1 \<longrightarrow> GetConfigurationAsync policy s = Inl TypeAssertion) \<and>
      (well_formed s1 \<and> pending_source fr s1 \<and> complete fr x s1 = Inr t \<longrightarrow>
         (\<exists>n s2. GetConfigurationAsync policy s = Inr (n, s2) \<and> get n s2 = Inr Blocked \<and>
                 complete fr x s2 = Inl TypeAssertion)))"
proof (intro conjI impI)
  show "transform policy x w = Inl TypeAssertion \<longleftrightarrow> (\<forall>resp. x \<noteq> Some (FetchResponseV resp))"
    by (auto simp: transform_other transform_FetchResponse)
next
  assume o: "\<forall>resp. x \<noteq> Some (FetchResponseV resp)" and f: "Fetcher policy s = Inr (fr, s1)"
    and c: "completed_with fr x s1"
  show "GetConfigurationAsync policy s = Inl TypeAssertion"
    by (simp add: GetConfigurationAsync_completed[OF f c] transform_other[OF o])
next
  assume o: "\<forall>resp. x \<noteq> Some (FetchResponseV resp)" and f: "Fetcher policy s = Inr (fr, s1)"
    and h: "well_formed s1 \<and> pending_source fr s1 \<and> complete fr x s1 = Inr t"
  then have wf: "well_formed s1" and ps: "pending_source fr s1"
    and t: "complete fr x s1 = Inr t" by simp_all
  let ?n = "length (heap s1)"
  let ?s2 = "ext fr (Accept_closure fr (ApplyThen_closure (transform policy) ?n)) fresh s1"
  have g: "GetConfigurationAsync policy s = Inr (?n, ?s2)"
    by (rule GetConfigurationAsync_pending[OF f ps])
  have b: "get ?n ?s2 = Inr Blocked"
    by (simp add: get_def ext_def nth_append fresh_def)
  have "complete fr x ?s2 = Inl TypeAssertion"
    by (simp add: chain_complete[OF wf ps t] transform_other[OF o])
  with g b show "\<exists>n s2. GetConfigurationAsync policy s = Inr (n, s2) \<and> get n s2 = Inr Blocked \<and>
                 complete fr x s2 = Inl TypeAssertion" by simp
qed


text \<open>
  A store in memory that counts its writes, a fetcher whose result is completed at once,
  one whose result is completed later, and a state whose cache holds \<open>v1\<close>.
\<close>

definition memory_store :: "(string \<times> nat) ConfigStore" where
  "memory_store = \<lparr>Get = fst, Set = (\<lambda>v c. (v, Suc (snd c)))\<rparr>"

definition fetch_done :: "unit payload iface \<Rightarrow> (unit payload, string \<times> nat) st
    \<Rightarrow> panic + (ref \<times> (unit payload, string \<times> nat) st)" where
  "fetch_done x s = asCompletedAsyncResult x s"

definition fetch_later :: "(unit payload, string \<times> nat) st
    \<Rightarrow> panic + (ref \<times> (unit payload, string \<times> nat) st)" where
  "fetch_later s = Inr (newAsyncResult s)"

definition cached_v1 :: "(unit payload, string \<times> nat) st" where
  "cached_v1 = \<lparr>heap = [], world = (''v1'', 0)\<rparr>"

lemma fetch_done_v1:
  "Fetcher (NewManualPollingPolicy (fetch_done (Some (FetchResponseV \<lparr>IsFetched = True, Body = ''v1''\<rparr>))) memory_store) cached_v1
     = Inr (0, \<lparr>heap = [completed_cell (Some (FetchResponseV \<lparr>IsFetched = True, Body = ''v1''\<rparr>))],
               world = (''v1'', 0)\<rparr>)"
  by (simp add: NewManualPollingPolicy_def fetch_done_def cached_v1_def asCompletedAsyncResult_eq)

lemma fetch_later_v1:
  "Fetcher (NewManualPollingPolicy fetch_later memory_store) cached_v1
     = Inr (0, \<lparr>heap = [fresh], world = (''v1'', 0)\<rparr>)"
  by (simp add: NewManualPollingPolicy_def fetch_later_def cached_v1_def newAsyncResult_eq)

lemma fresh_complete_v2:
  "complete 0 (Some (FetchResponseV \<lparr>IsFetched = True, Body = ''v2''\<rparr>))
       \<lparr>heap = [fresh], world = (''v1'', 0::nat)\<rparr>
     = Inr \<lparr>heap = [completed_cell (Some (FetchResponseV \<lparr>IsFetched = True, Body = ''v2''\<rparr>)) :: (unit payload, string \<times> nat) asyncResult],
            world = (''v1'', 0)\<rparr>"
  by (subst complete_fresh_cell) (simp_all add: upd_def)

theorem GetConfigurationAsync_serves_witness:
  "GetConfigurationAsync (NewManualPollingPolicy (fetch_done (Some (FetchResponseV \<lparr>IsFetched = True, Body = ''v1''\<rparr>))) memory_store)
       cached_v1
     = Inr (1, \<lparr>heap = [completed_cell (Some (FetchResponseV \<lparr>IsFetched = True, Body = ''v1''\<rparr>)),
                        completed_cell (Some (StringV ''v1''))],
               world = (''v1'', 0)\<rparr>) \<and>
   GetConfigurationAsync (NewManualPollingPolicy fetch_later memory_store) cached_v1
     = Inr (1, ext 0 (Accept_closure 0 (ApplyThen_closure
                   (transform (NewManualPollingPolicy fetch_later memory_store)) 1)) fresh
                 \<lparr>heap = [fresh], world = (''v1'', 0)\<rparr>) \<and>
   complete 0 (Some (FetchResponseV \<lparr>IsFetched = True, Body = ''v2''\<rparr>))
       (ext 0 (Accept_closure 0 (ApplyThen_closure
                   (transform (NewManualPollingPolicy fetch_later memory_store)) 1)) fresh
                 \<lparr>heap = [fresh], world = (''v1'', 0)\<rparr>)
     = Inr \<lparr>heap = [completed_cell (Some (FetchResponseV \<lparr>IsFetched = True, Body = ''v2''\<rparr>)),
                   completed_cell (Some (StringV ''v2''))],
            world = (''v2'', 1)\<rparr>"
proof -
  let ?r1 = "\<lparr>IsFetched = True, Body = ''v1''\<rparr>"
  let ?r2 = "\<lparr>IsFetched = True, Body = ''v2''\<rparr>"
  let ?p1 = "NewManualPollingPolicy (fetch_done (Some (FetchResponseV ?r1))) memory_store"
  let ?p2 = "NewManualPollingPolicy fetch_later memory_store"
  let ?s1 = "\<lparr>heap = [completed_cell (Some (FetchResponseV ?r1))], world = (''v1'', 0)\<rparr>
              :: (unit payload, string \<times> nat) st"
  let ?s1' = "\<lparr>heap = [fresh], world = (''v1'', 0)\<rparr> :: (unit payload, string \<times> nat) st"
  have c: "completed_with 0 (Some (FetchResponseV ?r1)) ?s1"
    by (simp add: completed_with_def completed_cell_def)
  have wf: "well_formed ?s1'"
    by (simp add: well_formed_def bounded_def cell_ok_def fresh_def newAsync_def elems_def)
  have ps: "pending_source 0 ?s1'"
    by (simp add: pending_source_def fresh_def newAsync_def elems_def)
  have st: "Get (Store ?p1) = fst" "Get (Store ?p2) = fst"
    "Set (Store ?p2) = (\<lambda>v c. (v, Suc (snd c)))"
    by (simp_all add: NewManualPollingPolicy_def memory_store_def)
  have g1: "GetConfigurationAsync ?p1 cached_v1
     = Inr (1, \<lparr>heap = [completed_cell (Some (FetchResponseV ?r1)), completed_cell (Some (StringV ''v1''))],
               world = (''v1'', 0)\<rparr>)"
    by (simp add: GetConfigurationAsync_completed[OF fetch_done_v1 c] transform_FetchResponse st)
  have g2: "GetConfigurationAsync ?p2 cached_v1
     = Inr (1, ext 0 (Accept_closure 0 (ApplyThen_closure (transform ?p2) 1)) fresh ?s1')"
    by (simp add: GetConfigurationAsync_pending[OF fetch_later_v1 ps])
  have run: "complete 0 (Some (FetchResponseV ?r2))
       (ext 0 (Accept_closure 0 (ApplyThen_closure (transform ?p2) 1)) fresh ?s1')
     = Inr \<lparr>heap = [completed_cell (Some (FetchResponseV ?r2)), completed_cell (Some (StringV ''v2''))],
            world = (''v2'', 1)\<rparr>"
    using chain_complete[OF wf ps fresh_complete_v2, of "transform ?p2"]
    by (simp add: transform_FetchResponse st)
  from GetConfigurationAsync_serves[OF fetch_done_v1, of ?r1]
    GetConfigurationAsync_serves[OF fetch_later_v1, of ?r2, THEN conjunct2, rule_format,
      OF conjI[OF wf conjI[OF ps fresh_complete_v2]]]
    g1 g2 run
  show ?thesis by simp
qed


theorem transform_type_assertion_witness:
  "transform (NewManualPollingPolicy fetch_later memory_store) (Some (StringV ''oops'')) (''v1'', 0)
     = Inl TypeAssertion \<and>
   GetConfigurationAsync (NewManualPollingPolicy (fetch_done (Some (StringV ''oops''))) memory_store)
       cached_v1 = Inl TypeAssertion \<and>
   GetConfigurationAsync (NewManualPollingPolicy fetch_later memory_store) cached_v1
     = Inr (1, ext 0 (Accept_closure 0 (ApplyThen_closure
                   (transform (NewManualPollingPolicy fetch_later memory_store)) 1)) fresh
                 \<lparr>heap = [fresh], world = (''v1'', 0)\<rparr>) \<and>
   complete 0 (Some (StringV ''oops''))
       (ext 0 (Accept_closure 0 (ApplyThen_closure
                   (transform (NewManualPollingPolicy fetch_later memory_store)) 1)) fresh
                 \<lparr>heap = [fresh], world = (''v1'', 0)\<rparr>)
     = Inl TypeAssertion"
proof -
  let ?x = "Some (StringV ''oops'') :: unit payload iface"
  let ?p1 = "NewManualPollingPolicy (fetch_done ?x) memory_store"
  let ?p2 = "NewManualPollingPolicy fetch_later memory_store"
  let ?s1 = "\<lparr>heap = [completed_cell ?x], world = (''v1'', 0)\<rparr> :: (unit payload, string \<times> nat) st"
  let ?s1' = "\<lparr>heap = [fresh], world = (''v1'', 0)\<rparr> :: (unit payload, string \<times> nat) st"
  have o: "\<forall>resp. ?x \<noteq> Some (FetchResponseV resp)" by simp
  have f1: "Fetcher ?p1 cached_v1 = Inr (0, ?s1)"
    by (simp add: NewManualPollingPolicy_def fetch_done_def cached_v1_def asCompletedAsyncResult_eq)
  have c: "completed_with 0 ?x ?s1"
    by (simp add: completed_with_def completed_cell_def)
  have wf: "well_formed ?s1'"
    by (simp add: well_formed_def bounded_def cell_ok_def fresh_def newAsync_def elems_def)
  have ps: "pending_source 0 ?s1'"
    by (simp add: pending_source_def fresh_def newAsync_def elems_def)
  have t: "complete 0 ?x ?s1' = Inr ?s1"
    by (subst complete_fresh_cell) (simp_all add: upd_def)
  have g2: "GetConfigurationAsync ?p2 cached_v1
     = Inr (1, ext 0 (Accept_closure 0 (ApplyThen_closure (transform ?p2) 1)) fresh ?s1')"
    by (simp add: GetConfigurationAsync_pending[OF fetch_later_v1 ps])
  from transform_type_assertion[of ?p2 ?x "(''v1'', 0)" cached_v1 0 ?s1' ?s1]
    transform_type_assertion[of ?p1 ?x "(''v1'', 0)" cached_v1 0 ?s1 ?s1]
    o f1 c wf ps t g2 fetch_later_v1
  show ?thesis by simp
qed

lemma applyThen_nil: "\<not> r < length (heap s) \<Longrightarrow> applyThen r f s = Inl NilDereference"
  by (simp add: applyThen_def newAsyncResult_eq)

lemma one_listener_open:
  "0 < length (heap one_listener)" "state (heap one_listener ! 0) = pending"
  "done_ch (heap one_listener ! 0) = Open"
  by (simp_all add: one_listener_def)

section \<open>Waiting with a timeout\<close>

text \<open>
  \<^verbatim>\<open>getOrTimeout\<close> (lines 95-104) creates a timer and selects between the timer's channel
  and \<^verbatim>\<open>done\<close>. The timer's channel is ready once the duration has elapsed since the timer
  was created, at once for a duration that is not positive; \<^verbatim>\<open>done\<close> is ready once it is
  closed. \<open>getOrTimeout r duration elapsed s\<close> is the set of the ways in which the call can
  return at a moment when \<open>elapsed\<close> has passed since the timer was created and the state
  is \<open>s\<close>: one for each case of the select that is ready, none while the call blocks.
  When both cases are ready the select takes either. Each way is the pair that the call
  returns together with the state it leaves, which is the state it found: the call writes
  no field. The error value is \<^verbatim>\<open>errors.New("operation cancelled")\<close>; times are in
  nanoseconds.
\<close>

datatype error = OperationCancelled

definition getOrTimeout :: "ref \<Rightarrow> int \<Rightarrow> nat \<Rightarrow> ('v, 'w) st
    \<Rightarrow> panic + (('v iface \<times> error option) \<times> ('v, 'w) st) set" where
  "getOrTimeout r duration elapsed s =
     (if r < length (heap s) then
        Inr ((if duration \<le> int elapsed then {((None, Some OperationCancelled), s)} else {}) \<union>
             (if done_ch (heap s ! r) = Closed then {((result (heap s ! r), None), s)} else {}))
      else Inl NilDereference)"

text \<open>
  C3 does not hold as stated. The object of \<open>one_listener\<close> is completed with 1 by a call
  of \<^verbatim>\<open>complete\<close> that has returned, so the result completed before any duration elapsed
  that a later wait sets. A wait on it with the duration 0, or -5, finds both cases of
  the select ready at once, and a wait with the duration 1 finds them so when it reaches
  the select one nanosecond after it created the timer: the call can return no value and
  the error.
\<close>

theorem getOrTimeout_counterexample:
  "complete 0 (Some 1) one_listener = Inr \<lparr>heap = [completed_cell (Some 1)], world = 1\<rparr> \<and>
   completed_with 0 (Some 1) \<lparr>heap = [completed_cell (Some (1::nat))], world = 1::nat\<rparr> \<and>
   getOrTimeout 0 0 0 \<lparr>heap = [completed_cell (Some (1::nat))], world = 1::nat\<rparr>
     = Inr {((None, Some OperationCancelled), \<lparr>heap = [completed_cell (Some 1)], world = 1\<rparr>),
            ((Some 1, None), \<lparr>heap = [completed_cell (Some 1)], world = 1\<rparr>)} \<and>
   getOrTimeout 0 (- 5) 0 \<lparr>heap = [completed_cell (Some (1::nat))], world = 1::nat\<rparr>
     = Inr {((None, Some OperationCancelled), \<lparr>heap = [completed_cell (Some 1)], world = 1\<rparr>),
            ((Some 1, None), \<lparr>heap = [completed_cell (Some 1)], world = 1\<rparr>)} \<and>
   getOrTimeout 0 1 1 \<lparr>heap = [completed_cell (Some (1::nat))], world = 1::nat\<rparr>
     = Inr {((None, Some OperationCancelled), \<lparr>heap = [completed_cell (Some 1)], world = 1\<rparr>),
            ((Some 1, None), \<lparr>heap = [completed_cell (Some 1)], world = 1\<rparr>)} \<and>
   ((None, Some OperationCancelled), \<lparr>heap = [completed_cell (Some (1::nat))], world = 1::nat\<rparr>)
     \<noteq> ((Some 1, None), \<lparr>heap = [completed_cell (Some 1)], world = 1\<rparr>)"
proof -
  let ?t = "\<lparr>heap = [completed_cell (Some (1::nat))], world = 1::nat\<rparr>"
  have c: "completed_with 0 (Some 1) ?t" by (simp add: completed_with_def completed_cell_def)
  have g: "getOrTimeout 0 d e ?t = Inr {((None, Some OperationCancelled), ?t), ((Some 1, None), ?t)}"
    if "d \<le> int e" for d e
    using that by (simp add: getOrTimeout_def completed_cell_def insert_commute)
  have ne: "((None, Some OperationCancelled), ?t) \<noteq> ((Some 1, None), ?t)" by simp
  have g0: "getOrTimeout 0 0 0 ?t = Inr {((None, Some OperationCancelled), ?t), ((Some 1, None), ?t)}"
    by (rule g) simp
  have g5: "getOrTimeout 0 (- 5) 0 ?t = Inr {((None, Some OperationCancelled), ?t), ((Some 1, None), ?t)}"
    by (rule g) simp
  have g1: "getOrTimeout 0 1 1 ?t = Inr {((None, Some OperationCancelled), ?t), ((Some 1, None), ?t)}"
    by (rule g) simp
  show ?thesis by (intro conjI one_listener_complete c g0 g5 g1 ne)
qed

text \<open>
  C3, amended: let the select of \<^verbatim>\<open>getOrTimeout(d)\<close> fire when \<open>elapsed\<close> has passed since
  the timer was created. If the result is completed with \<open>v\<close> and less than \<open>d\<close> has
  elapsed, the call returns \<open>v\<close> and no error, and nothing else. If \<open>d\<close> has elapsed and
  \<^verbatim>\<open>done\<close> is still open, it returns no value and the error, and nothing else. If the result
  is completed and \<open>d\<close> has elapsed, which is so at every moment when \<open>d\<close> is not positive,
  it returns either the one or the other. Before both it blocks. In every case the call
  leaves the state as it found it, so that when the result is completed after the wait,
  \<^verbatim>\<open>get()\<close> returns the payload.
\<close>

theorem getOrTimeout_cases:
  assumes "r < length (heap s)"
  shows "(completed_with r v s \<and> int elapsed < duration \<longrightarrow>
            getOrTimeout r duration elapsed s = Inr {((v, None), s)}) \<and>
         (done_ch (heap s ! r) = Open \<and> duration \<le> int elapsed \<longrightarrow>
            getOrTimeout r duration elapsed s = Inr {((None, Some OperationCancelled), s)}) \<and>
         (completed_with r v s \<and> (duration \<le> int elapsed \<or> duration \<le> 0) \<longrightarrow>
            getOrTimeout r duration elapsed s
              = Inr {((None, Some OperationCancelled), s), ((v, None), s)}) \<and>
         (done_ch (heap s ! r) = Open \<and> int elapsed < duration \<longrightarrow>
            getOrTimeout r duration elapsed s = Inr {}) \<and>
         (\<forall>S out s1. getOrTimeout r duration elapsed s = Inr S \<and> (out, s1) \<in> S \<longrightarrow>
            s1 = s \<and>
            (\<forall>x s2. state (heap s1 ! r) = pending \<and> complete r x s1 = Inr s2 \<longrightarrow>
               get r s2 = Inr (Received x) \<and>
               (\<forall>d e. int e < d \<longrightarrow> getOrTimeout r d e s2 = Inr {((x, None), s2)})))"
proof (intro conjI impI allI)
  assume "completed_with r v s \<and> int elapsed < duration"
  then show "getOrTimeout r duration elapsed s = Inr {((v, None), s)}"
    by (simp add: getOrTimeout_def completed_with_def)
next
  assume "done_ch (heap s ! r) = Open \<and> duration \<le> int elapsed"
  then show "getOrTimeout r duration elapsed s = Inr {((None, Some OperationCancelled), s)}"
    using assms by (simp add: getOrTimeout_def)
next
  assume h: "completed_with r v s \<and> (duration \<le> int elapsed \<or> duration \<le> 0)"
  then have "duration \<le> int elapsed" by auto
  with h show "getOrTimeout r duration elapsed s
              = Inr {((None, Some OperationCancelled), s), ((v, None), s)}"
    by (simp add: getOrTimeout_def completed_with_def insert_commute)
next
  assume "done_ch (heap s ! r) = Open \<and> int elapsed < duration"
  then show "getOrTimeout r duration elapsed s = Inr {}"
    using assms by (simp add: getOrTimeout_def)
next
  fix S out s1
  assume h: "getOrTimeout r duration elapsed s = Inr S \<and> (out, s1) \<in> S"
  then show "s1 = s" using assms by (auto simp: getOrTimeout_def split: if_splits)
next
  fix S out s1 x s2
  assume h: "getOrTimeout r duration elapsed s = Inr S \<and> (out, s1) \<in> S"
    and c: "state (heap s1 ! r) = pending \<and> complete r x s1 = Inr s2"
  from h have s1: "s1 = s" using assms by (auto simp: getOrTimeout_def split: if_splits)
  from c have p: "state (heap s ! r) = pending" and cc: "complete r x s = Inr s2"
    by (simp_all add: s1)
  note post = complete_outer_post[OF assms p cc]
  from post show "get r s2 = Inr (Received x)" by (simp add: get_def)
next
  fix S out s1 x s2 d e
  assume h: "getOrTimeout r duration elapsed s = Inr S \<and> (out, s1) \<in> S"
    and c: "state (heap s1 ! r) = pending \<and> complete r x s1 = Inr s2"
    and e: "int e < d"
  from h have s1: "s1 = s" using assms by (auto simp: getOrTimeout_def split: if_splits)
  from c have p: "state (heap s ! r) = pending" and cc: "complete r x s = Inr s2"
    by (simp_all add: s1)
  note post = complete_outer_post[OF assms p cc]
  from post e show "getOrTimeout r d e s2 = Inr {((x, None), s2)}"
    by (simp add: getOrTimeout_def)
qed

theorem getOrTimeout_cases_witness:
  "getOrTimeout 0 10 3 \<lparr>heap = [completed_cell (Some (1::nat))], world = 1::nat\<rparr>
     = Inr {((Some 1, None), \<lparr>heap = [completed_cell (Some 1)], world = 1\<rparr>)} \<and>
   getOrTimeout 0 10 10 one_listener = Inr {((None, Some OperationCancelled), one_listener)} \<and>
   getOrTimeout 0 10 12 \<lparr>heap = [completed_cell (Some (1::nat))], world = 1::nat\<rparr>
     = Inr {((None, Some OperationCancelled), \<lparr>heap = [completed_cell (Some 1)], world = 1\<rparr>),
            ((Some 1, None), \<lparr>heap = [completed_cell (Some 1)], world = 1\<rparr>)} \<and>
   getOrTimeout 0 10 3 one_listener = Inr {} \<and>
   complete 0 (Some 1) one_listener = Inr \<lparr>heap = [completed_cell (Some 1)], world = 1\<rparr> \<and>
   get 0 \<lparr>heap = [completed_cell (Some (1::nat))], world = 1::nat\<rparr> = Inr (Received (Some 1))"
proof -
  let ?t = "\<lparr>heap = [completed_cell (Some (1::nat))], world = 1::nat\<rparr>"
  have c: "completed_with 0 (Some 1) ?t" by (simp add: completed_with_def completed_cell_def)
  have r: "0 < length (heap ?t)" by simp
  have to: "getOrTimeout 0 10 10 one_listener = Inr {((None, Some OperationCancelled), one_listener)}"
    by (simp add: getOrTimeout_def one_listener_def)
  have mem: "((None, Some OperationCancelled), one_listener)
       \<in> {((None, Some OperationCancelled), one_listener)}" by simp
  have w1: "getOrTimeout 0 10 3 ?t = Inr {((Some 1, None), ?t)}"
    using getOrTimeout_cases[OF r, of "Some 1" 3 10] c by simp
  have w3: "getOrTimeout 0 10 12 ?t = Inr {((None, Some OperationCancelled), ?t), ((Some 1, None), ?t)}"
    using getOrTimeout_cases[OF r, of "Some 1" 12 10] c by simp
  have w4: "getOrTimeout 0 10 3 one_listener = Inr {}"
    using getOrTimeout_cases[OF one_listener_open(1), of "Some 1" 3 10] one_listener_open(3) by simp
  have w5: "get 0 ?t = Inr (Received (Some 1))"
    using getOrTimeout_cases[OF one_listener_open(1), of "Some 1" 10 10, THEN conjunct2, THEN conjunct2,
      THEN conjunct2, THEN conjunct2, rule_format, OF conjI[OF to mem], THEN conjunct2, rule_format,
      OF conjI[OF one_listener_open(2) one_listener_complete]]
    by simp
  show ?thesis by (intro conjI w1 to w3 w4 one_listener_complete w5)
qed

section \<open>Claims about a race\<close>

text \<open>
  C8: let \<open>N \<ge> 1\<close> goroutines call \<^verbatim>\<open>complete(v1)\<close>, ..., \<^verbatim>\<open>complete(vN)\<close> on one pending
  \<^verbatim>\<open>asyncResult\<close>, interleaved in any way, and let all of them have returned. Then exactly
  one of them has swapped the state; the payload is its value; \<^verbatim>\<open>get()\<close> returns that
  value, and still does after any later call of \<^verbatim>\<open>complete\<close>. \<^verbatim>\<open>get()\<close> reads and writes
  nothing, so repeated reads agree.
\<close>

theorem exactly_one_complete_wins:
  assumes "r < length (heap s0)" and "state (heap s0 ! r) = pending"
    and "done_ch (heap s0 ! r) = Open" and "vs \<noteq> []"
    and "rtranclp (step r) \<lparr>goroutines = map start vs, shared = s0\<rparr> c"
    and "\<forall>j<length vs. pc (goroutines c ! j) = Returned"
  shows "\<exists>i<length vs. swapped (goroutines c ! i) \<and>
           (\<forall>j<length vs. swapped (goroutines c ! j) \<longrightarrow> j = i) \<and>
           result (heap (shared c) ! r) = vs ! i \<and>
           get r (shared c) = Inr (Received (vs ! i)) \<and>
           (\<forall>v. \<exists>s'. complete r v (shared c) = Inr s' \<and> get r s' = Inr (Received (vs ! i)))"
proof -
  have inv: "race_inv r vs c"
    by (rule race_inv_reach[OF assms(5) race_inv_init[OF assms(1-3)]])
  from assms(4) have z: "0 < length vs" by simp
  have np: "state (heap (shared c) ! r) \<noteq> pending"
  proof
    assume "state (heap (shared c) ! r) = pending"
    with inv z have "pc (goroutines c ! 0) = L73" by (simp add: race_inv_def)
    with assms(6) z show False by simp
  qed
  from inv have r: "r < length (heap (shared c))" by (simp add: race_inv_def)
  from inv np obtain i where i: "i < length vs"
    and w: "winner_ok (goroutines c ! i) (heap (shared c) ! r)"
    and l: "\<forall>j<length vs. j \<noteq> i \<longrightarrow> loser_ok (goroutines c ! j)"
    and a: "arg (goroutines c ! i) = vs ! i"
    by (auto simp: race_inv_def)
  from assms(6) i have ret: "pc (goroutines c ! i) = Returned" by simp
  have res: "result (heap (shared c) ! r) = vs ! i" "done_ch (heap (shared c) ! r) = Closed"
    using w ret a by (simp_all add: winner_ok_def)
  have g: "get r (shared c) = Inr (Received (vs ! i))" using r res by (simp add: get_def)
  have later: "\<exists>s'. complete r v (shared c) = Inr s' \<and> get r s' = Inr (Received (vs ! i))" for v
    using r np res by (simp add: complete_loser get_def)
  have uniq: "\<forall>j<length vs. swapped (goroutines c ! j) \<longrightarrow> j = i"
    using l by (auto simp: loser_ok_def)
  from w have "swapped (goroutines c ! i)" by (simp add: winner_ok_def)
  with i uniq res g later show ?thesis by blast
qed


text \<open>
  C10: in every configuration that such a race reaches, on an object that was pending
  with \<^verbatim>\<open>done\<close> open: a \<^verbatim>\<open>get()\<close> that returns, and a \<^verbatim>\<open>getOrTimeout\<close> that returns by the
  case of \<^verbatim>\<open>done\<close>, return the value of the goroutine that swapped; while the winner is
  at line 75 or 76 the payload is already its value and \<^verbatim>\<open>done\<close> is still open; the step
  of line 75 is the completion of the signal in which every continuation registered with
  \<^verbatim>\<open>accept\<close> is handed that value; and at line 79 the payload is that value, \<^verbatim>\<open>done\<close> is
  closed, and the step is the loop that calls every element of \<^verbatim>\<open>completions\<close> with that
  value. The steps are those of \<open>complete\<close>: a goroutine alone runs \<open>complete\<close>.
\<close>

theorem payload_before_done_and_continuations:
  assumes "r < length (heap s0)" and "state (heap s0 ! r) = pending"
    and "done_ch (heap s0 ! r) = Open"
    and "rtranclp (step r) \<lparr>goroutines = map start vs, shared = s0\<rparr> c"
  shows "(\<forall>x. get r (shared c) = Inr (Received x) \<longrightarrow>
            (\<exists>i<length vs. swapped (goroutines c ! i) \<and> x = vs ! i)) \<and>
         (\<forall>d e S x s1. getOrTimeout r d e (shared c) = Inr S \<and> ((x, None), s1) \<in> S \<longrightarrow>
            (\<exists>i<length vs. swapped (goroutines c ! i) \<and> x = vs ! i)) \<and>
         (\<forall>i<length vs. pc (goroutines c ! i) = L75 \<or> pc (goroutines c ! i) = L76 \<longrightarrow>
            swapped (goroutines c ! i) \<and>
            result (heap (shared c) ! r) = vs ! i \<and> done_ch (heap (shared c) ! r) = Open) \<and>
         (\<forall>i<length vs. pc (goroutines c ! i) = L75 \<longrightarrow>
            list_all (registered_on r) (a_completions (async (heap (shared c) ! r))) \<longrightarrow>
            complete_step r (goroutines c ! i) (shared c) =
              (case async_complete_passing (vs ! i) r (shared c) of
                 Inl p \<Rightarrow> Inl p
               | Inr s' \<Rightarrow> Inr ((goroutines c ! i)\<lparr>pc := L76\<rparr>, s'))) \<and>
         (\<forall>i<length vs. pc (goroutines c ! i) = L79 \<longrightarrow>
            swapped (goroutines c ! i) \<and>
            result (heap (shared c) ! r) = vs ! i \<and> done_ch (heap (shared c) ! r) = Closed \<and>
            complete_step r (goroutines c ! i) (shared c) =
              (case run_completions (elems (completions (heap (shared c) ! r))) (vs ! i) (shared c) of
                 Inl p \<Rightarrow> Inl p
               | Inr s' \<Rightarrow> Inr ((goroutines c ! i)\<lparr>pc := L83\<rparr>, s'))) \<and>
         (\<forall>v s. complete r v s =
            (case run_alone 6 r (start v) s of Inl p \<Rightarrow> Inl p | Inr (g, s') \<Rightarrow> Inr s'))"
proof -
  have inv: "race_inv r vs c"
    by (rule race_inv_reach[OF assms(4) race_inv_init[OF assms(1-3)]])
  then have r: "r < length (heap (shared c))"
    and args: "\<forall>j<length vs. arg (goroutines c ! j) = vs ! j" by (simp_all add: race_inv_def)
  let ?a = "heap (shared c) ! r"
  have closed: "\<exists>i<length vs. swapped (goroutines c ! i) \<and> result ?a = vs ! i"
    if d: "done_ch ?a = Closed"
  proof -
    from inv d have np: "state ?a \<noteq> pending" by (auto simp: race_inv_def)
    with inv obtain i where i: "i < length vs" and w: "winner_ok (goroutines c ! i) ?a"
      by (auto simp: race_inv_def)
    from w d args i have "swapped (goroutines c ! i)" "result ?a = vs ! i"
      by (auto simp: winner_ok_def)
    with i show ?thesis by auto
  qed
  have one: "\<exists>i<length vs. swapped (goroutines c ! i) \<and> x = vs ! i"
    if "get r (shared c) = Inr (Received x)" for x
  proof -
    from that r have d: "done_ch ?a = Closed" and x: "x = result ?a"
      by (auto simp: get_def split: chan.splits)
    from closed[OF d] x show ?thesis by simp
  qed
  have one': "\<exists>i<length vs. swapped (goroutines c ! i) \<and> x = vs ! i"
    if "getOrTimeout r d e (shared c) = Inr S \<and> ((x, None), s1) \<in> S" for d e S x s1
  proof -
    from that r have d: "done_ch ?a = Closed" and x: "x = result ?a"
      by (auto simp: getOrTimeout_def split: if_splits)
    from closed[OF d] x show ?thesis by simp
  qed
  have winner: "swapped (goroutines c ! i) \<and> winner_ok (goroutines c ! i) ?a \<and>
                arg (goroutines c ! i) = vs ! i"
    if i: "i < length vs"
      and p: "pc (goroutines c ! i) = L75 \<or> pc (goroutines c ! i) = L76 \<or> pc (goroutines c ! i) = L79"
    for i
  proof -
    from inv i p have np: "state ?a \<noteq> pending" by (auto simp: race_inv_def)
    with inv obtain k where k: "k < length vs" and w: "winner_ok (goroutines c ! k) ?a"
      and l: "\<forall>j<length vs. j \<noteq> k \<longrightarrow> loser_ok (goroutines c ! j)"
      by (auto simp: race_inv_def)
    from l i p have "i = k" by (auto simp: loser_ok_def)
    with w args i show ?thesis by (simp add: winner_ok_def)
  qed
  have two: "swapped (goroutines c ! i) \<and> result ?a = vs ! i \<and> done_ch ?a = Open \<and>
             state ?a \<noteq> pending"
    if i: "i < length vs" and p: "pc (goroutines c ! i) = L75 \<or> pc (goroutines c ! i) = L76" for i
  proof -
    from winner[OF i] p have w: "winner_ok (goroutines c ! i) ?a"
      and a: "arg (goroutines c ! i) = vs ! i" by auto
    from w p a have "result ?a = vs ! i" "done_ch ?a \<noteq> Closed" "state ?a \<noteq> pending"
      "swapped (goroutines c ! i)"
      by (auto simp: winner_ok_def)
    then show ?thesis by (cases "done_ch ?a") auto
  qed
  have three: "complete_step r (goroutines c ! i) (shared c) =
              (case async_complete_passing (vs ! i) r (shared c) of
                 Inl p \<Rightarrow> Inl p
               | Inr s' \<Rightarrow> Inr ((goroutines c ! i)\<lparr>pc := L76\<rparr>, s'))"
    if i: "i < length vs" and p: "pc (goroutines c ! i) = L75"
      and reg: "list_all (registered_on r) (a_completions (async ?a))" for i
  proof -
    have "async_complete r (shared c) = async_complete_passing (vs ! i) r (shared c)"
      using two[OF i] p r reg by (intro async_complete_is_passing) simp_all
    then show ?thesis using p by simp
  qed
  have four: "swapped (goroutines c ! i) \<and> result ?a = vs ! i \<and> done_ch ?a = Closed \<and>
            complete_step r (goroutines c ! i) (shared c) =
              (case run_completions (elems (completions ?a)) (vs ! i) (shared c) of
                 Inl p \<Rightarrow> Inl p
               | Inr s' \<Rightarrow> Inr ((goroutines c ! i)\<lparr>pc := L83\<rparr>, s'))"
    if i: "i < length vs" and p: "pc (goroutines c ! i) = L79" for i
  proof -
    from winner[OF i] p have w: "winner_ok (goroutines c ! i) ?a"
      and a: "arg (goroutines c ! i) = vs ! i" by auto
    from w p a have "result ?a = vs ! i" "done_ch ?a = Closed" "swapped (goroutines c ! i)"
      by (auto simp: winner_ok_def)
    then show ?thesis using p a by simp
  qed
  have five: "complete r v s =
            (case run_alone 6 r (start v) s of Inl p \<Rightarrow> Inl p | Inr (g, s') \<Rightarrow> Inr s')" for v s
    by (rule complete_is_run_alone)
  from one one' two three four five show ?thesis by blast
qed

text \<open>
  Two goroutines completing the object of \<open>one_listener\<close> with 1 and with 2: the start,
  and the end when goroutine \<open>i\<close> has won.
\<close>

definition race_start :: "(nat, nat) config" where
  "race_start = \<lparr>goroutines = map start [Some 1, Some 2], shared = one_listener\<rparr>"

definition race_end :: "nat \<Rightarrow> (nat, nat) config" where
  "race_end i =
     \<lparr>goroutines = [\<lparr>pc = Returned, arg = Some 1, swapped = (i = 0)\<rparr>,
                    \<lparr>pc = Returned, arg = Some 2, swapped = (i = 1)\<rparr>],
      shared = \<lparr>heap = [completed_cell (Some (Suc i))], world = 1\<rparr>\<rparr>"

lemma race_schedule_0:
  "run_schedule [0, 1, 0, 0, 1, 0, 0, 0] 0 race_start = Some (race_end 0)"
  by (simp add: race_start_def race_end_def one_listener_def start_def async_complete.simps
      upd_def close_done_def elems_def count_calls_def completed_cell_def)

lemma race_schedule_1:
  "run_schedule [1, 1, 0, 1, 1, 1, 0, 1] 0 race_start = Some (race_end 1)"
  by (simp add: race_start_def race_end_def one_listener_def start_def async_complete.simps
      upd_def close_done_def elems_def count_calls_def completed_cell_def)

theorem exactly_one_complete_wins_witness:
  "rtranclp (step 0) race_start (race_end 0) \<and> rtranclp (step 0) race_start (race_end 1) \<and>
   pc (goroutines (race_end 0) ! 0) = Returned \<and> pc (goroutines (race_end 0) ! 1) = Returned \<and>
   swapped (goroutines (race_end 0) ! 0) \<and> \<not> swapped (goroutines (race_end 0) ! 1) \<and>
   get 0 (shared (race_end 0)) = Inr (Received (Some 1)) \<and>
   \<not> swapped (goroutines (race_end 1) ! 0) \<and> swapped (goroutines (race_end 1) ! 1) \<and>
   get 0 (shared (race_end 1)) = Inr (Received (Some 2))"
proof -
  have ne: "[Some (1::nat), Some 2] \<noteq> []" by simp
  have r0: "rtranclp (step 0) \<lparr>goroutines = map start [Some 1, Some 2], shared = one_listener\<rparr> (race_end 0)"
    using run_schedule_steps[OF race_schedule_0] by (simp add: race_start_def)
  have r1: "rtranclp (step 0) \<lparr>goroutines = map start [Some 1, Some 2], shared = one_listener\<rparr> (race_end 1)"
    using run_schedule_steps[OF race_schedule_1] by (simp add: race_start_def)
  have f0: "\<forall>j<length [Some (1::nat), Some 2]. pc (goroutines (race_end 0) ! j) = Returned"
    by (simp add: race_end_def less_Suc_eq)
  have f1: "\<forall>j<length [Some (1::nat), Some 2]. pc (goroutines (race_end 1) ! j) = Returned"
    by (simp add: race_end_def less_Suc_eq)
  from exactly_one_complete_wins[OF one_listener_open ne r0 f0]
    exactly_one_complete_wins[OF one_listener_open ne r1 f1] r0 r1
  show ?thesis
    by (simp add: race_start_def race_end_def get_def completed_cell_def)
qed

text \<open>
  A continuation that records the value it is handed, and an object that holds it twice:
  registered with \<^verbatim>\<open>accept\<close>, in the list of the signal, and in the list \<^verbatim>\<open>completions\<close> of
  the object itself, the list of the loop of lines 79-81. Two goroutines complete the
  object with 1 and with 2; goroutine 0 swaps. \<open>recorded_at_L75\<close> and \<open>recorded_at_L79\<close>
  are the configurations with goroutine 0 at lines 75 and 79 and the loser at line 83,
  \<open>recorded_L76\<close> and \<open>recorded_L83\<close> the states after the steps of those lines, and
  \<open>recorded_end\<close> the configuration when both have returned. The state of the callers is
  the list of the values handed so far.
\<close>

definition keep_payload :: "nat iface \<Rightarrow> nat iface list \<Rightarrow> panic + nat iface list" where
  "keep_payload v w = Inr (w @ [v])"

definition two_continuations :: "(nat, nat iface list) st" where
  "two_continuations =
     \<lparr>heap = [\<lparr>state = pending, completions = Some [Consumer keep_payload], done_ch = Open,
               result = None,
               async = \<lparr>a_state = pending,
                        a_completions = [Accept_closure 0 (Consumer keep_payload)],
                        a_done = Open\<rparr>\<rparr>],
      world = []\<rparr>"

definition recording_start :: "(nat, nat iface list) config" where
  "recording_start = \<lparr>goroutines = map start [Some 1, Some 2], shared = two_continuations\<rparr>"

definition recorded_at_L75 :: "(nat, nat iface list) config" where
  "recorded_at_L75 =
     \<lparr>goroutines = [\<lparr>pc = L75, arg = Some 1, swapped = True\<rparr>,
                    \<lparr>pc = L83, arg = Some 2, swapped = False\<rparr>],
      shared = \<lparr>heap = [\<lparr>state = completed, completions = Some [Consumer keep_payload],
                         done_ch = Open, result = Some 1,
                         async = \<lparr>a_state = pending,
                                  a_completions = [Accept_closure 0 (Consumer keep_payload)],
                                  a_done = Open\<rparr>\<rparr>],
                world = []\<rparr>\<rparr>"

definition recorded_L76 :: "(nat, nat iface list) st" where
  "recorded_L76 =
     \<lparr>heap = [\<lparr>state = completed, completions = Some [Consumer keep_payload],
               done_ch = Open, result = Some 1,
               async = \<lparr>a_state = completed, a_completions = [], a_done = Closed\<rparr>\<rparr>],
      world = [Some 1]\<rparr>"

definition recorded_at_L79 :: "(nat, nat iface list) config" where
  "recorded_at_L79 =
     \<lparr>goroutines = [\<lparr>pc = L79, arg = Some 1, swapped = True\<rparr>,
                    \<lparr>pc = L83, arg = Some 2, swapped = False\<rparr>],
      shared = \<lparr>heap = [\<lparr>state = completed, completions = Some [Consumer keep_payload],
                         done_ch = Closed, result = Some 1,
                         async = \<lparr>a_state = completed, a_completions = [], a_done = Closed\<rparr>\<rparr>],
                world = [Some 1]\<rparr>\<rparr>"

definition recorded_L83 :: "(nat, nat iface list) st" where
  "recorded_L83 =
     \<lparr>heap = [\<lparr>state = completed, completions = Some [Consumer keep_payload],
               done_ch = Closed, result = Some 1,
               async = \<lparr>a_state = completed, a_completions = [], a_done = Closed\<rparr>\<rparr>],
      world = [Some 1, Some 1]\<rparr>"

definition recorded_end :: "(nat, nat iface list) config" where
  "recorded_end =
     \<lparr>goroutines = [\<lparr>pc = Returned, arg = Some 1, swapped = True\<rparr>,
                    \<lparr>pc = Returned, arg = Some 2, swapped = False\<rparr>],
      shared = \<lparr>heap = [completed_cell (Some 1)], world = [Some 1, Some 1]\<rparr>\<rparr>"

lemma two_continuations_open:
  "0 < length (heap two_continuations)" "state (heap two_continuations ! 0) = pending"
  "done_ch (heap two_continuations ! 0) = Open"
  by (simp_all add: two_continuations_def)

lemma recording_schedule_L75:
  "run_schedule [0, 1, 0] 0 recording_start = Some recorded_at_L75"
  by (simp add: recording_start_def recorded_at_L75_def two_continuations_def start_def upd_def)

lemma recording_schedule_L79:
  "run_schedule [0, 1, 0, 0, 0] 0 recording_start = Some recorded_at_L79"
  by (simp add: recording_start_def recorded_at_L79_def two_continuations_def start_def
      async_complete.simps upd_def close_done_def keep_payload_def)

lemma recording_schedule_end:
  "run_schedule [0, 1, 0, 0, 0, 0, 0, 1] 0 recording_start = Some recorded_end"
  by (simp add: recording_start_def recorded_end_def two_continuations_def start_def
      async_complete.simps upd_def close_done_def elems_def keep_payload_def completed_cell_def)

lemma recorded_line_75:
  "async_complete_passing (Some 1) 0 (shared recorded_at_L75) = Inr recorded_L76"
  by (simp add: async_complete_passing_def recorded_at_L75_def recorded_L76_def upd_def
      keep_payload_def)

lemma recorded_line_79:
  "run_completions (elems (completions (heap (shared recorded_at_L79) ! 0))) (Some 1)
     (shared recorded_at_L79) = Inr recorded_L83"
  by (simp add: recorded_at_L79_def recorded_L83_def elems_def keep_payload_def)

theorem payload_before_done_and_continuations_witness:
  "rtranclp (step 0) recording_start recorded_at_L75 \<and>
   pc (goroutines recorded_at_L75 ! 0) = L75 \<and> swapped (goroutines recorded_at_L75 ! 0) \<and>
   result (heap (shared recorded_at_L75) ! 0) = Some 1 \<and>
   done_ch (heap (shared recorded_at_L75) ! 0) = Open \<and>
   get 0 (shared recorded_at_L75) = Inr Blocked \<and>
   getOrTimeout 0 10 3 (shared recorded_at_L75) = Inr {} \<and>
   complete_step 0 (goroutines recorded_at_L75 ! 0) (shared recorded_at_L75) =
     Inr ((goroutines recorded_at_L75 ! 0)\<lparr>pc := L76\<rparr>, recorded_L76) \<and>
   world recorded_L76 = [Some 1] \<and>
   rtranclp (step 0) recording_start recorded_at_L79 \<and>
   pc (goroutines recorded_at_L79 ! 0) = L79 \<and> swapped (goroutines recorded_at_L79 ! 0) \<and>
   result (heap (shared recorded_at_L79) ! 0) = Some 1 \<and>
   done_ch (heap (shared recorded_at_L79) ! 0) = Closed \<and>
   complete_step 0 (goroutines recorded_at_L79 ! 0) (shared recorded_at_L79) =
     Inr ((goroutines recorded_at_L79 ! 0)\<lparr>pc := L83\<rparr>, recorded_L83) \<and>
   world recorded_L83 = [Some 1, Some 1] \<and>
   rtranclp (step 0) recording_start recorded_end \<and>
   get 0 (shared recorded_end) = Inr (Received (Some 1)) \<and>
   getOrTimeout 0 10 3 (shared recorded_end) = Inr {((Some 1, None), shared recorded_end)} \<and>
   (\<exists>i. i < 2 \<and> swapped (goroutines recorded_end ! i) \<and> Some (1::nat) = [Some 1, Some 2] ! i) \<and>
   complete 0 (Some 1) two_continuations = Inr (shared recorded_end)"
proof -
  let ?vs = "[Some (1::nat), Some 2]"
  have r5: "rtranclp (step 0) \<lparr>goroutines = map start ?vs, shared = two_continuations\<rparr> recorded_at_L75"
    using run_schedule_steps[OF recording_schedule_L75] by (simp add: recording_start_def)
  have r9: "rtranclp (step 0) \<lparr>goroutines = map start ?vs, shared = two_continuations\<rparr> recorded_at_L79"
    using run_schedule_steps[OF recording_schedule_L79] by (simp add: recording_start_def)
  have re: "rtranclp (step 0) \<lparr>goroutines = map start ?vs, shared = two_continuations\<rparr> recorded_end"
    using run_schedule_steps[OF recording_schedule_end] by (simp add: recording_start_def)
  note at5 = payload_before_done_and_continuations[OF two_continuations_open r5]
  note at9 = payload_before_done_and_continuations[OF two_continuations_open r9]
  note ate = payload_before_done_and_continuations[OF two_continuations_open re]
  have i0: "0 < length ?vs" by simp
  have p5: "pc (goroutines recorded_at_L75 ! 0) = L75" by (simp add: recorded_at_L75_def)
  have p9: "pc (goroutines recorded_at_L79 ! 0) = L79" by (simp add: recorded_at_L79_def)
  have reg: "list_all (registered_on 0) (a_completions (async (heap (shared recorded_at_L75) ! 0)))"
    by (simp add: recorded_at_L75_def)
  have c5: "swapped (goroutines recorded_at_L75 ! 0) \<and>
            result (heap (shared recorded_at_L75) ! 0) = Some 1 \<and>
            done_ch (heap (shared recorded_at_L75) ! 0) = Open"
    using at5[THEN conjunct2, THEN conjunct2, THEN conjunct1, rule_format, OF i0] p5 by simp
  have d5: "complete_step 0 (goroutines recorded_at_L75 ! 0) (shared recorded_at_L75) =
              Inr ((goroutines recorded_at_L75 ! 0)\<lparr>pc := L76\<rparr>, recorded_L76)"
    using at5[THEN conjunct2, THEN conjunct2, THEN conjunct2, THEN conjunct1, rule_format,
        OF i0 p5 reg]
    by (simp only: recorded_line_75 nth_Cons_0 sum.case)
  have e9: "swapped (goroutines recorded_at_L79 ! 0) \<and>
            result (heap (shared recorded_at_L79) ! 0) = Some 1 \<and>
            done_ch (heap (shared recorded_at_L79) ! 0) = Closed \<and>
            complete_step 0 (goroutines recorded_at_L79 ! 0) (shared recorded_at_L79) =
              Inr ((goroutines recorded_at_L79 ! 0)\<lparr>pc := L83\<rparr>, recorded_L83)"
    using at9[THEN conjunct2, THEN conjunct2, THEN conjunct2, THEN conjunct2, THEN conjunct1,
        rule_format, OF i0 p9]
    by (simp only: recorded_line_79 nth_Cons_0 sum.case)
  have g5: "get 0 (shared recorded_at_L75) = Inr Blocked"
    by (simp add: get_def recorded_at_L75_def)
  have t5: "getOrTimeout 0 10 3 (shared recorded_at_L75) = Inr {}"
    by (simp add: getOrTimeout_def recorded_at_L75_def)
  have ge: "get 0 (shared recorded_end) = Inr (Received (Some 1))"
    by (simp add: get_def recorded_end_def completed_cell_def)
  have te: "getOrTimeout 0 10 3 (shared recorded_end) = Inr {((Some 1, None), shared recorded_end)}"
    by (simp add: getOrTimeout_def recorded_end_def completed_cell_def)
  have we: "\<exists>i. i < 2 \<and> swapped (goroutines recorded_end ! i) \<and> Some (1::nat) = [Some 1, Some 2] ! i"
    using ate[THEN conjunct1, rule_format, OF ge] by (simp add: eval_nat_numeral)
  have w6: "world recorded_L76 = [Some 1]" by (simp add: recorded_L76_def)
  have w8: "world recorded_L83 = [Some 1, Some 1]" by (simp add: recorded_L83_def)
  have al: "complete 0 (Some 1) two_continuations = Inr (shared recorded_end)"
    by (simp add: complete.simps async_complete.simps two_continuations_def recorded_end_def
        upd_def close_done_def elems_def keep_payload_def completed_cell_def)
  from r5 r9 re have s5: "rtranclp (step 0) recording_start recorded_at_L75"
    and s9: "rtranclp (step 0) recording_start recorded_at_L79"
    and se: "rtranclp (step 0) recording_start recorded_end"
    by (simp_all add: recording_start_def)
  from c5 e9 show ?thesis
    by (intro conjI s5 p5 g5 t5 d5 w6 s9 p9 w8 se ge te we al) simp_all
qed

end
